theory Spec2Isabelle
  imports Main "HOL-Library.Multiset"
begin

section \<open>The Sudoku engine of sudoku.py\<close>

text \<open>
  A shallow embedding of the classes \<open>Cell\<close> and \<open>Sudoku\<close> of \<open>src/sudoku.py\<close>.
  Python integers are \<open>int\<close>, Python lists are HOL lists, a method that mutates its
  receiver takes the receiver and returns the mutated one, and an exception is the
  \<open>Inl\<close> of a sum.  Only two exceptions can arise in the engine once its arguments are
  integers: an \<open>IndexError\<close> of a list subscript and the \<open>ZeroDivisionError\<close> of
  \<open>row // self.box_size\<close>.
\<close>

datatype py_error = IndexError | ZeroDivisionError

subsection \<open>Python lists and loops\<close>

text \<open>\<open>range(a, b)\<close> over integers; empty when \<open>b \<le> a\<close>.\<close>

definition py_range :: "int \<Rightarrow> int \<Rightarrow> int list" where
  "py_range a b = [a..b - 1]"

text \<open>
  The position a subscript \<open>xs[i]\<close> denotes in a list of length \<open>n\<close>: Python counts a
  negative subscript from the end, and raises \<open>IndexError\<close> outside \<open>-n \<le> i < n\<close>.
\<close>

definition py_index :: "nat \<Rightarrow> int \<Rightarrow> nat option" where
  "py_index n i =
     (if 0 \<le> i \<and> i < int n then Some (nat i)
      else if - int n \<le> i \<and> i < 0 then Some (nat (int n + i))
      else None)"

text \<open>\<open>g[row][col]\<close>, read.\<close>

definition get_cell :: "'a list list \<Rightarrow> int \<Rightarrow> int \<Rightarrow> py_error + 'a" where
  "get_cell g row col =
     (case py_index (length g) row of
        None \<Rightarrow> Inl IndexError
      | Some i \<Rightarrow>
          (case py_index (length (g ! i)) col of
             None \<Rightarrow> Inl IndexError
           | Some j \<Rightarrow> Inr (g ! i ! j)))"

text \<open>
  \<open>g[row][col].m(...)\<close> for a method \<open>m\<close> that mutates the object found there: the
  object at that position is replaced by the mutated one.
\<close>

definition upd_cell :: "'a list list \<Rightarrow> int \<Rightarrow> int \<Rightarrow> ('a \<Rightarrow> 'a) \<Rightarrow> py_error + 'a list list" where
  "upd_cell g row col f =
     (case py_index (length g) row of
        None \<Rightarrow> Inl IndexError
      | Some i \<Rightarrow>
          (case py_index (length (g ! i)) col of
             None \<Rightarrow> Inl IndexError
           | Some j \<Rightarrow> Inr (g[i := (g ! i)[j := f (g ! i ! j)]])))"

text \<open>A \<open>for\<close> loop whose body updates a state and may raise.\<close>

primrec for_each :: "'i list \<Rightarrow> ('i \<Rightarrow> 's \<Rightarrow> py_error + 's) \<Rightarrow> 's \<Rightarrow> py_error + 's" where
  "for_each [] body s = Inr s"
| "for_each (x # xs) body s =
     (case body x s of Inl e \<Rightarrow> Inl e | Inr s' \<Rightarrow> for_each xs body s')"

text \<open>A \<open>for\<close> loop that returns from the function at the first hit.\<close>

primrec find_first :: "'i list \<Rightarrow> ('i \<Rightarrow> py_error + 'r option) \<Rightarrow> py_error + 'r option" where
  "find_first [] body = Inr None"
| "find_first (x # xs) body =
     (case body x of
        Inl e \<Rightarrow> Inl e
      | Inr (Some r) \<Rightarrow> Inr (Some r)
      | Inr None \<Rightarrow> find_first xs body)"

subsection \<open>class Cell\<close>

record Cell =
  cell_value :: int
  possible :: "int list"
  cell_max_val :: int

text \<open>\<open>Cell.__init__(self, value, max_val)\<close>\<close>

definition Cell_init :: "int \<Rightarrow> int \<Rightarrow> Cell" where
  "Cell_init v m =
     \<lparr>cell_value = v, possible = (if v = 0 then py_range 1 (m + 1) else []), cell_max_val = m\<rparr>"

text \<open>\<open>'%.1d' % n\<close>: the decimal digits of \<open>n\<close>, with a minus sign when negative.\<close>

fun digits10 :: "nat \<Rightarrow> string" where
  "digits10 n =
     (if n < 10 then [char_of (48 + n)]
      else digits10 (n div 10) @ [char_of (48 + n mod 10)])"

definition format_d :: "int \<Rightarrow> string" where
  "format_d n = (if n < 0 then CHR ''-'' # digits10 (nat (- n)) else digits10 (nat n))"

text \<open>\<open>Cell.__str__\<close>; \<open>chr\<close> is \<open>char_of\<close>.\<close>

definition Cell_str :: "Cell \<Rightarrow> string" where
  "Cell_str c =
     (if cell_value c = 0 then ''_''
      else if cell_value c < 10 then format_d (cell_value c)
      else if cell_value c < 36 then [char_of (cell_value c + 55)]
      else if cell_value c < 65 then [char_of (cell_value c + 61)]
      else ''*'')"

text \<open>\<open>Cell.set\<close>: the cell is initialised again, with its own \<open>max_val\<close>.\<close>

definition Cell_set :: "Cell \<Rightarrow> int \<Rightarrow> Cell" where
  "Cell_set c v = Cell_init v (cell_max_val c)"

text \<open>\<open>Cell.remove_from_possible\<close>; \<open>list.remove\<close> deletes the first occurrence.\<close>

definition remove_from_possible :: "int \<Rightarrow> Cell \<Rightarrow> Cell" where
  "remove_from_possible v c =
     (if v \<in> set (possible c) then c\<lparr>possible := remove1 v (possible c)\<rparr> else c)"

subsection \<open>class Sudoku\<close>

record Sudoku =
  box_size :: int
  max_val :: int
  cells_filled :: int
  cell :: "Cell list list"

text \<open>\<open>Sudoku.__init__(self, box_size)\<close>\<close>

definition Sudoku_init :: "int \<Rightarrow> Sudoku" where
  "Sudoku_init bs =
     \<lparr>box_size = bs, max_val = bs ^ 2, cells_filled = 0,
      cell = map (\<lambda>row. map (\<lambda>col. Cell_init 0 (bs ^ 2)) (py_range 0 (bs ^ 2)))
               (py_range 0 (bs ^ 2))\<rparr>"

text \<open>\<open>Sudoku.remove_value_from_possibles\<close>: the row, the column, then the box.\<close>

definition remove_value_from_possibles :: "Sudoku \<Rightarrow> int \<Rightarrow> int \<Rightarrow> int \<Rightarrow> py_error + Sudoku" where
  "remove_value_from_possibles b v row col =
     (case for_each (py_range 0 (max_val b))
             (\<lambda>c g. upd_cell g row c (remove_from_possible v)) (cell b) of
        Inl e \<Rightarrow> Inl e
      | Inr g1 \<Rightarrow>
     (case for_each (py_range 0 (max_val b))
             (\<lambda>r g. upd_cell g r col (remove_from_possible v)) g1 of
        Inl e \<Rightarrow> Inl e
      | Inr g2 \<Rightarrow>
     if box_size b = 0 then Inl ZeroDivisionError
     else
       let box_row = row div box_size b * box_size b;
           box_col = col div box_size b * box_size b
       in (case for_each (py_range box_row (box_row + box_size b))
                  (\<lambda>r. for_each (py_range box_col (box_col + box_size b))
                     (\<lambda>c g. upd_cell g r c (remove_from_possible v))) g2 of
             Inl e \<Rightarrow> Inl e
           | Inr g3 \<Rightarrow> Inr (b\<lparr>cell := g3\<rparr>))))"

text \<open>\<open>Sudoku.set_cell\<close>: the returned flag and the board after the call.\<close>

definition set_cell :: "Sudoku \<Rightarrow> int \<Rightarrow> int \<Rightarrow> int \<Rightarrow> py_error + (bool \<times> Sudoku)" where
  "set_cell b v row col =
     (case get_cell (cell b) row col of
        Inl e \<Rightarrow> Inl e
      | Inr c \<Rightarrow>
          if v \<notin> set (possible c) then Inr (False, b)
          else
            (case upd_cell (cell b) row col (\<lambda>x. Cell_set x v) of
               Inl e \<Rightarrow> Inl e
             | Inr g \<Rightarrow>
                 (case remove_value_from_possibles
                         (b\<lparr>cell := g, cells_filled := cells_filled b + 1\<rparr>) v row col of
                    Inl e \<Rightarrow> Inl e
                  | Inr b' \<Rightarrow> Inr (True, b'))))"

text \<open>\<open>Sudoku.find_one_possible\<close>; \<open>None\<close> is the source's \<open>(None, None)\<close>.\<close>

definition find_one_possible :: "Sudoku \<Rightarrow> py_error + (int \<times> int) option" where
  "find_one_possible b =
     find_first (py_range 0 (max_val b)) (\<lambda>row.
       find_first (py_range 0 (max_val b)) (\<lambda>col.
         case get_cell (cell b) row col of
           Inl e \<Rightarrow> Inl e
         | Inr c \<Rightarrow> Inr (if length (possible c) = 1 then Some (row, col) else None)))"

text \<open>\<open>Sudoku.find_lowest_possibles\<close>; the loop state is \<open>(low_row, low_col, low_poss)\<close>.\<close>

definition find_lowest_possibles :: "Sudoku \<Rightarrow> py_error + (int \<times> int)" where
  "find_lowest_possibles b =
     (case for_each (py_range 0 (max_val b)) (\<lambda>row.
             for_each (py_range 0 (max_val b)) (\<lambda>col (low_row, low_col, low_poss).
               case get_cell (cell b) row col of
                 Inl e \<Rightarrow> Inl e
               | Inr c \<Rightarrow>
                   let len_possible = int (length (possible c))
                   in if len_possible > 0 \<and> len_possible < low_poss
                      then Inr (row, col, len_possible)
                      else Inr (low_row, low_col, low_poss)))
             (- 1, - 1, max_val b + 1) of
        Inl e \<Rightarrow> Inl e
      | Inr (low_row, low_col, low_poss) \<Rightarrow> Inr (low_row, low_col))"

text \<open>\<open>Sudoku.reached_dead_end\<close>\<close>

definition reached_dead_end :: "Sudoku \<Rightarrow> py_error + bool" where
  "reached_dead_end b =
     (case find_first (py_range 0 (max_val b)) (\<lambda>r.
             find_first (py_range 0 (max_val b)) (\<lambda>c.
               case get_cell (cell b) r c of
                 Inl e \<Rightarrow> Inl e
               | Inr x \<Rightarrow>
                   Inr (if cell_value x = 0 \<and> length (possible x) = 0 then Some True else None))) of
        Inl e \<Rightarrow> Inl e
      | Inr (Some t) \<Rightarrow> Inr t
      | Inr None \<Rightarrow> Inr False)"

text \<open>\<open>Sudoku.solved\<close>\<close>

definition solved :: "Sudoku \<Rightarrow> py_error + bool" where
  "solved b =
     (case find_first (py_range 0 (max_val b)) (\<lambda>r.
             find_first (py_range 0 (max_val b)) (\<lambda>c.
               case get_cell (cell b) r c of
                 Inl e \<Rightarrow> Inl e
               | Inr x \<Rightarrow> Inr (if cell_value x = 0 then Some False else None))) of
        Inl e \<Rightarrow> Inl e
      | Inr (Some t) \<Rightarrow> Inr t
      | Inr None \<Rightarrow> Inr True)"

subsection \<open>Termination of the propagation loop\<close>

text \<open>
  A successful assignment either empties a candidate list that was not empty, or (when
  the value assigned is 0, which re-initialises the cell) removes the candidate 0 from one
  more cell for good; removing candidates never undoes either.  So the pair (number
  of cells with candidate 0, total number of candidates) decreases lexicographically,
  on every board, well formed or not.
\<close>

definition cell_zeros :: "Cell \<Rightarrow> nat" where
  "cell_zeros c = (if 0 \<in> set (possible c) then 1 else 0)"

definition cell_cands :: "Cell \<Rightarrow> nat" where
  "cell_cands c = length (possible c)"

definition grid_sum :: "('a \<Rightarrow> nat) \<Rightarrow> 'a list list \<Rightarrow> nat" where
  "grid_sum m g = sum_list (map (\<lambda>row. sum_list (map m row)) g)"

definition board_rank :: "Sudoku \<Rightarrow> nat \<times> nat" where
  "board_rank b = (grid_sum cell_zeros (cell b), grid_sum cell_cands (cell b))"

definition board_less :: "(Sudoku \<times> Sudoku) set" where
  "board_less = inv_image (less_than <*lex*> less_than) board_rank"

lemma sum_list_map_update:
  "k < length xs \<Longrightarrow>
   sum_list (map m (xs[k := y])) + m (xs ! k) = sum_list (map m xs) + (m y :: nat)"
  by (induction xs arbitrary: k) (auto split: nat.splits)

lemma py_index_less: "py_index n i = Some k \<Longrightarrow> k < n"
  by (auto simp: py_index_def split: if_splits)

lemma grid_sum_upd:
  assumes "upd_cell g row col f = Inr g'"
  shows "\<exists>x. get_cell g row col = Inr x \<and> grid_sum m g' + m x = grid_sum m g + m (f x)"
proof -
  from assms obtain i j where i: "py_index (length g) row = Some i"
    and j: "py_index (length (g ! i)) col = Some j"
    and g': "g' = g[i := (g ! i)[j := f (g ! i ! j)]]"
    by (auto simp: upd_cell_def split: option.splits)
  have il: "i < length g" and jl: "j < length (g ! i)"
    using i j by (auto dest: py_index_less)
  let ?rs = "\<lambda>row. sum_list (map m row)"
  have "?rs ((g ! i)[j := f (g ! i ! j)]) + m (g ! i ! j) = ?rs (g ! i) + m (f (g ! i ! j))"
    using jl by (rule sum_list_map_update)
  moreover have "sum_list (map ?rs (g[i := (g ! i)[j := f (g ! i ! j)]])) + ?rs (g ! i)
      = sum_list (map ?rs g) + ?rs ((g ! i)[j := f (g ! i ! j)])"
    using il by (rule sum_list_map_update)
  ultimately have "grid_sum m g' + m (g ! i ! j) = grid_sum m g + m (f (g ! i ! j))"
    by (simp add: grid_sum_def g')
  moreover have "get_cell g row col = Inr (g ! i ! j)"
    by (simp add: get_cell_def i j)
  ultimately show ?thesis by blast
qed

lemma grid_sum_upd_le:
  assumes "upd_cell g row col f = Inr g'" and "\<And>x. m (f x) \<le> m x"
  shows "grid_sum m g' \<le> grid_sum m g"
proof -
  from grid_sum_upd[OF assms(1), of m] obtain x
    where "grid_sum m g' + m x = grid_sum m g + m (f x)" by blast
  with assms(2)[of x] show ?thesis by linarith
qed

lemma for_each_le:
  assumes "for_each xs body s = Inr s'"
    and "\<And>x t t'. body x t = Inr t' \<Longrightarrow> (M t' :: nat) \<le> M t"
  shows "M s' \<le> M s"
  using assms(1)
proof (induction xs arbitrary: s)
  case Nil
  then show ?case by simp
next
  case (Cons x xs)
  then obtain t where t: "body x s = Inr t" and r: "for_each xs body t = Inr s'"
    by (auto split: sum.splits)
  from Cons.IH[OF r] assms(2)[OF t] show ?case by linarith
qed

lemma cell_zeros_remove: "cell_zeros (remove_from_possible v c) \<le> cell_zeros c"
  using set_remove1_subset[of v "possible c"]
  by (auto simp: cell_zeros_def remove_from_possible_def)

lemma cell_cands_remove: "cell_cands (remove_from_possible v c) \<le> cell_cands c"
  by (auto simp: cell_cands_def remove_from_possible_def length_remove1)

lemma remove_value_from_possibles_le:
  assumes "remove_value_from_possibles b v row col = Inr b'"
    and "\<And>x. m (remove_from_possible v x) \<le> m x"
  shows "grid_sum m (cell b') \<le> grid_sum m (cell b)"
proof -
  let ?f = "remove_from_possible v"
  from assms(1) obtain g1 g2 g3 where
    1: "for_each (py_range 0 (max_val b)) (\<lambda>c g. upd_cell g row c ?f) (cell b) = Inr g1" and
    2: "for_each (py_range 0 (max_val b)) (\<lambda>r g. upd_cell g r col ?f) g1 = Inr g2" and
    3: "for_each (py_range (row div box_size b * box_size b) (row div box_size b * box_size b + box_size b))
          (\<lambda>r. for_each (py_range (col div box_size b * box_size b) (col div box_size b * box_size b + box_size b))
             (\<lambda>c g. upd_cell g r c ?f)) g2 = Inr g3" and
    b': "b' = b\<lparr>cell := g3\<rparr>"
    by (auto simp: remove_value_from_possibles_def Let_def split: sum.splits if_splits)
  have "grid_sum m g1 \<le> grid_sum m (cell b)"
    by (rule for_each_le[OF 1]) (rule grid_sum_upd_le, assumption, rule assms(2))
  moreover have "grid_sum m g2 \<le> grid_sum m g1"
    by (rule for_each_le[OF 2]) (rule grid_sum_upd_le, assumption, rule assms(2))
  moreover have "grid_sum m g3 \<le> grid_sum m g2"
    by (rule for_each_le[OF 3], erule for_each_le) (rule grid_sum_upd_le, assumption, rule assms(2))
  ultimately show ?thesis by (simp add: b')
qed

lemma set_cell_less:
  assumes "set_cell b v row col = Inr (ok, b')" and "get_cell (cell b) row col = Inr c"
    and "v \<in> set (possible c)"
  shows "(b', b) \<in> board_less"
proof -
  from assms obtain g where
    g: "upd_cell (cell b) row col (\<lambda>x. Cell_set x v) = Inr g" and
    r: "remove_value_from_possibles (b\<lparr>cell := g, cells_filled := cells_filled b + 1\<rparr>) v row col = Inr b'"
    by (auto simp: set_cell_def split: sum.splits if_splits)
  let ?b1 = "b\<lparr>cell := g, cells_filled := cells_filled b + 1\<rparr>"
  have z: "grid_sum cell_zeros g + cell_zeros c = grid_sum cell_zeros (cell b) + cell_zeros (Cell_set c v)"
    and l: "grid_sum cell_cands g + cell_cands c = grid_sum cell_cands (cell b) + cell_cands (Cell_set c v)"
    using grid_sum_upd[OF g, of cell_zeros] grid_sum_upd[OF g, of cell_cands] assms(2) by auto
  have z': "grid_sum cell_zeros (cell b') \<le> grid_sum cell_zeros g"
    using remove_value_from_possibles_le[OF r, of cell_zeros] by (simp add: cell_zeros_remove)
  have l': "grid_sum cell_cands (cell b') \<le> grid_sum cell_cands g"
    using remove_value_from_possibles_le[OF r, of cell_cands] by (simp add: cell_cands_remove)
  have nz: "cell_zeros (Cell_set c v) = 0"
    by (auto simp: cell_zeros_def Cell_set_def Cell_init_def py_range_def)
  show ?thesis
  proof (cases "v = 0")
    case True
    with assms(3) have "cell_zeros c = 1" by (simp add: cell_zeros_def)
    with z z' nz have "grid_sum cell_zeros (cell b') < grid_sum cell_zeros (cell b)" by linarith
    then show ?thesis by (simp add: board_less_def board_rank_def)
  next
    case False
    then have "cell_cands (Cell_set c v) = 0"
      by (simp add: cell_cands_def Cell_set_def Cell_init_def)
    moreover from assms(3) have "0 < cell_cands c"
      by (cases "possible c") (auto simp: cell_cands_def)
    ultimately have "grid_sum cell_cands (cell b') < grid_sum cell_cands (cell b)"
      using l l' by linarith
    moreover have "grid_sum cell_zeros (cell b') \<le> grid_sum cell_zeros (cell b)"
      using z z' nz by linarith
    ultimately show ?thesis by (auto simp: board_less_def board_rank_def)
  qed
qed

text \<open>
  \<open>Sudoku.fill_in_all_knowns\<close>: the \<open>while\<close> loop is the recursion; \<open>possible[0]\<close> raises
  \<open>IndexError\<close> on an empty list.
\<close>

function fill_in_all_knowns :: "Sudoku \<Rightarrow> py_error + Sudoku" where
  "fill_in_all_knowns b =
     (case find_one_possible b of
        Inl e \<Rightarrow> Inl e
      | Inr None \<Rightarrow> Inr b
      | Inr (Some (row, col)) \<Rightarrow>
          (case get_cell (cell b) row col of
             Inl e \<Rightarrow> Inl e
           | Inr c \<Rightarrow>
               (case possible c of
                  [] \<Rightarrow> Inl IndexError
                | v # rest \<Rightarrow>
                    (case set_cell b v row col of
                       Inl e \<Rightarrow> Inl e
                     | Inr (ok, b') \<Rightarrow> fill_in_all_knowns b'))))"
  by pat_completeness auto
termination
proof (relation board_less)
  show "wf board_less" by (auto simp: board_less_def)
next
  fix b x2 x2a x y c v rest p ok b'
  assume "get_cell (cell b) x y = Inr c" "possible c = v # rest" "set_cell b v x y = Inr p" "(ok, b') = p"
  then show "(b', b) \<in> board_less"
    using set_cell_less[of b v x y ok b' c] by simp
qed

subsection \<open>The search: \<open>Sudoku.solve\<close> over a store of boards\<close>

text \<open>
  \<open>solve\<close> works on copies of its receiver, and what it returns is one of the copies.
  Which object a call mutates is therefore part of its behaviour, and the boards live
  in a store: a list of boards, an object's address being its position.
  \<open>copy.deepcopy\<close> allocates: the copy is a new object and shares no mutable part with
  the original, so it is the same value at a fresh address.
\<close>

type_synonym store = "Sudoku list"

definition deepcopy :: "store \<Rightarrow> nat \<Rightarrow> store \<times> nat" where
  "deepcopy h a = (h @ [h ! a], length h)"

text \<open>
  The \<open>for value in puzzle.cell[row][col].possible\<close> loop of \<open>solve\<close>: each round copies
  \<open>puzzle\<close>, assigns into the copy (the flag \<open>set_cell\<close> returns is dropped, as in the
  source) and appends the copy to \<open>puzzles\<close>.
\<close>

definition fork_puzzles ::
  "store \<Rightarrow> nat list \<Rightarrow> nat \<Rightarrow> int \<Rightarrow> int \<Rightarrow> int list \<Rightarrow> py_error + (store \<times> nat list)" where
  "fork_puzzles h puzzles puzzle row col vals =
     for_each vals (\<lambda>v (h, puzzles).
        let (h', forked_puzzle) = deepcopy h puzzle
        in case set_cell (h' ! forked_puzzle) v row col of
             Inl e \<Rightarrow> Inl e
           | Inr (ok, b') \<Rightarrow> Inr (h'[forked_puzzle := b'], puzzles @ [forked_puzzle]))
       (h, puzzles)"

text \<open>
  The \<open>while(len(puzzles))\<close> loop.  \<open>puzzles\<close> is the Python list, so \<open>pop()\<close> takes its
  last element and \<open>append\<close> adds at the end.  The third argument is the variable
  \<open>puzzle\<close>: an address, or \<open>None\<close>.  The result is what \<open>return puzzle\<close> returns, with
  the store the call leaves; the result \<open>None\<close> of the option type is a loop that does
  not end.
\<close>

partial_function (option) solve_loop ::
  "store \<Rightarrow> nat list \<Rightarrow> nat option \<Rightarrow> (py_error + (nat option \<times> store)) option" where
  "solve_loop h puzzles puzzle =
     (if length puzzles = 0 then Some (Inr (puzzle, h))
      else
        (let p = last puzzles; puzzles1 = butlast puzzles
         in (case fill_in_all_knowns (h ! p) of
               Inl e \<Rightarrow> Some (Inl e)
             | Inr b \<Rightarrow>
                 (let h1 = h[p := b]
                  in (case solved b of
                        Inl e \<Rightarrow> Some (Inl e)
                      | Inr is_solved \<Rightarrow>
                          (if is_solved then solve_loop h1 [] (Some p)
                           else
                             (case reached_dead_end b of
                                Inl e \<Rightarrow> Some (Inl e)
                              | Inr dead \<Rightarrow>
                                  (if dead \<and> length puzzles1 = 0
                                   then solve_loop h1 puzzles1 None
                                   else if dead then solve_loop h1 puzzles1 (Some p)
                                   else
                                     (case find_lowest_possibles b of
                                        Inl e \<Rightarrow> Some (Inl e)
                                      | Inr (row, col) \<Rightarrow>
                                          (case get_cell (cell b) row col of
                                             Inl e \<Rightarrow> Some (Inl e)
                                           | Inr c \<Rightarrow>
                                               (case fork_puzzles h1 puzzles1 p row col
                                                       (possible c) of
                                                  Inl e \<Rightarrow> Some (Inl e)
                                                | Inr (h2, puzzles2) \<Rightarrow>
                                                    solve_loop h2 puzzles2 (Some p))))))))))))"

text \<open>
  \<open>Sudoku.solve\<close>, called on the object at address \<open>self\<close>.  The variable \<open>puzzle\<close> is not
  bound before the loop; the loop runs at least once, since \<open>puzzles\<close> starts with one
  element, and binds it before it is read, so the initial \<open>None\<close> is never seen.
\<close>

declare solve_loop.simps [code]

definition solve :: "store \<Rightarrow> nat \<Rightarrow> (py_error + (nat option \<times> store)) option" where
  "solve h self =
     (let (h0, a) = deepcopy h self
      in solve_loop h0 ([] @ [a]) None)"

section \<open>Boards that callers build\<close>

text \<open>
  A caller (\<open>Sudoku.populate\<close>, \<open>fill_puzzle\<close> of \<open>sudokuEngTest.py\<close>, the GUI) sets clues one
  after another with \<open>set_cell\<close>; \<open>set_cells\<close> is such a run on the triples
  \<open>(value, row, col)\<close>, going on after a refused clue as \<open>populate\<close> does.
\<close>

fun set_cells :: "Sudoku \<Rightarrow> (int \<times> int \<times> int) list \<Rightarrow> py_error + Sudoku" where
  "set_cells b [] = Inr b"
| "set_cells b ((v, row, col) # cs) =
     (case set_cell b v row col of
        Inl e \<Rightarrow> Inl e
      | Inr (ok, b') \<Rightarrow> set_cells b' cs)"

text \<open>
  The boards reachable from a fresh \<open>Sudoku(bs)\<close>: by any call of \<open>set_cell\<close> that returns
  (with either flag), by \<open>fill_in_all_knowns\<close>, and by taking the board \<open>solve\<close> returns.
\<close>

inductive reachable :: "int \<Rightarrow> Sudoku \<Rightarrow> bool" for bs :: int where
  fresh: "reachable bs (Sudoku_init bs)"
| assign: "reachable bs b \<Longrightarrow> set_cell b v row col = Inr (ok, b') \<Longrightarrow> reachable bs b'"
| propagate: "reachable bs b \<Longrightarrow> fill_in_all_knowns b = Inr b' \<Longrightarrow> reachable bs b'"
| search: "reachable bs (h ! self) \<Longrightarrow> self < length h \<Longrightarrow>
           solve h self = Some (Inr (Some a, h')) \<Longrightarrow> reachable bs (h' ! a)"

section \<open>Vocabulary of the properties\<close>

text \<open>
  Positions are pairs of list positions.  \<open>pos n i\<close> is the list position the Python
  subscript \<open>i\<close> denotes in a list of length \<open>n\<close>, for \<open>-n \<le> i < n\<close>.
\<close>

definition pos :: "nat \<Rightarrow> int \<Rightarrow> nat" where
  "pos n i = nat (i mod int n)"

definition cell_at :: "Sudoku \<Rightarrow> nat \<times> nat \<Rightarrow> Cell" where
  "cell_at b p = cell b ! fst p ! snd p"

definition in_grid :: "Sudoku \<Rightarrow> nat \<times> nat \<Rightarrow> bool" where
  "in_grid b p \<longleftrightarrow> fst p < nat (max_val b) \<and> snd p < nat (max_val b)"

text \<open>Two positions share a row, a column or a box of side \<open>k\<close> (a position is its own peer).\<close>

definition peer :: "nat \<Rightarrow> nat \<times> nat \<Rightarrow> nat \<times> nat \<Rightarrow> bool" where
  "peer k p q \<longleftrightarrow>
     fst p = fst q \<or> snd p = snd q \<or> (fst p div k = fst q div k \<and> snd p div k = snd q div k)"

text \<open>No two different cells that share a row, a column or a box hold the same non-zero value.\<close>

definition peers_distinct :: "Sudoku \<Rightarrow> bool" where
  "peers_distinct b \<longleftrightarrow>
     (\<forall>p q. in_grid b p \<and> in_grid b q \<and> p \<noteq> q \<and> peer (nat (box_size b)) p q \<and>
            cell_value (cell_at b p) \<noteq> 0
        \<longrightarrow> cell_value (cell_at b p) \<noteq> cell_value (cell_at b q))"

text \<open>No candidate of a cell is the value of one of its peers.\<close>

definition cands_sound :: "Sudoku \<Rightarrow> bool" where
  "cands_sound b \<longleftrightarrow>
     (\<forall>p q. in_grid b p \<and> in_grid b q \<and> peer (nat (box_size b)) p q
        \<longrightarrow> cell_value (cell_at b q) \<notin> set (possible (cell_at b p)))"

text \<open>An \<open>n\<close> by \<open>n\<close> grid, and a property of all its cells.\<close>

definition grid_ok :: "nat \<Rightarrow> 'a list list \<Rightarrow> bool" where
  "grid_ok n g \<longleftrightarrow> length g = n \<and> (\<forall>i<n. length (g ! i) = n)"

definition all_cells :: "nat \<Rightarrow> ('a \<Rightarrow> bool) \<Rightarrow> 'a list list \<Rightarrow> bool" where
  "all_cells n Q g \<longleftrightarrow> (\<forall>i<n. \<forall>j<n. Q (g ! i ! j))"

text \<open>
  \<open>g'\<close> is \<open>g\<close> with \<open>f\<close> applied at the positions of \<open>S\<close>: what a loop of
  \<open>g[r][c].m()\<close> calls does to a grid.
\<close>

definition applied :: "nat \<Rightarrow> (nat \<times> nat) set \<Rightarrow> ('a \<Rightarrow> 'a) \<Rightarrow> 'a list list \<Rightarrow> 'a list list \<Rightarrow> bool" where
  "applied n S f g g' \<longleftrightarrow>
     grid_ok n g' \<and> (\<forall>i<n. \<forall>j<n. g' ! i ! j = (if (i, j) \<in> S then f (g ! i ! j) else g ! i ! j))"

text \<open>The cell-level and board-level invariants of reachable boards.\<close>

definition cands_distinct :: "Cell \<Rightarrow> bool" where
  "cands_distinct c \<longleftrightarrow> distinct (possible c)"

definition cell_ok :: "int \<Rightarrow> Cell \<Rightarrow> bool" where
  "cell_ok N c \<longleftrightarrow>
     cell_max_val c = N \<and> sorted (possible c) \<and> distinct (possible c) \<and>
     set (possible c) \<subseteq> {1..N} \<and>
     (cell_value c \<noteq> 0 \<longrightarrow> possible c = [] \<and> 1 \<le> cell_value c \<and> cell_value c \<le> N)"

definition shape :: "int \<Rightarrow> Sudoku \<Rightarrow> bool" where
  "shape bs b \<longleftrightarrow>
     0 \<le> bs \<and> box_size b = bs \<and> max_val b = bs * bs \<and>
     grid_ok (nat (bs * bs)) (cell b) \<and> all_cells (nat (bs * bs)) (cell_ok (bs * bs)) (cell b)"

definition filled :: "Cell \<Rightarrow> nat" where
  "filled c = (if cell_value c \<noteq> 0 then 1 else 0)"

definition board_inv :: "int \<Rightarrow> Sudoku \<Rightarrow> bool" where
  "board_inv bs b \<longleftrightarrow>
     shape bs b \<and> cands_sound b \<and> peers_distinct b \<and>
     cells_filled b = int (grid_sum filled (cell b))"

text \<open>The nested loop with an early return that the three scanning methods share.\<close>

definition scan :: "int \<Rightarrow> 'a list list \<Rightarrow> ('a \<Rightarrow> bool) \<Rightarrow> (int \<Rightarrow> int \<Rightarrow> 'r) \<Rightarrow> py_error + 'r option" where
  "scan N g test mk =
     find_first (py_range 0 N) (\<lambda>r.
       find_first (py_range 0 N) (\<lambda>c.
         case get_cell g r c of
           Inl e \<Rightarrow> Inl e
         | Inr x \<Rightarrow> Inr (if test x then Some (mk r c) else None)))"

text \<open>
  One round of the loop of \<open>solve\<close>, seen on the values of the boards: the boards that the
  \<open>for value in ...\<close> loop creates, and what the round finds after propagation.  Both are
  proof devices; \<open>fork_puzzles_values\<close> and \<open>solve_loop_step\<close> tie them to the loop.
\<close>

primrec fork_values :: "Sudoku \<Rightarrow> int \<Rightarrow> int \<Rightarrow> int list \<Rightarrow> py_error + Sudoku list" where
  "fork_values b row col [] = Inr []"
| "fork_values b row col (v # vs) =
     (case set_cell b v row col of
        Inl e \<Rightarrow> Inl e
      | Inr (ok, b') \<Rightarrow>
          (case fork_values b row col vs of
             Inl e \<Rightarrow> Inl e
           | Inr kids \<Rightarrow> Inr (b' # kids)))"

datatype outcome = Found Sudoku | Dead Sudoku | Fork Sudoku "Sudoku list"

definition branch :: "Sudoku \<Rightarrow> py_error + outcome" where
  "branch x =
     (case fill_in_all_knowns x of
        Inl e \<Rightarrow> Inl e
      | Inr b \<Rightarrow>
          (case solved b of
             Inl e \<Rightarrow> Inl e
           | Inr is_solved \<Rightarrow>
               (if is_solved then Inr (Found b)
                else
                  (case reached_dead_end b of
                     Inl e \<Rightarrow> Inl e
                   | Inr dead \<Rightarrow>
                       (if dead then Inr (Dead b)
                        else
                          (case find_lowest_possibles b of
                             Inl e \<Rightarrow> Inl e
                           | Inr (row, col) \<Rightarrow>
                               (case get_cell (cell b) row col of
                                  Inl e \<Rightarrow> Inl e
                                | Inr c \<Rightarrow>
                                    (case fork_values b row col (possible c) of
                                       Inl e \<Rightarrow> Inl e
                                     | Inr kids \<Rightarrow> Inr (Fork b kids)))))))))"

text \<open>Every cell has a value.\<close>

definition all_filled :: "Sudoku \<Rightarrow> bool" where
  "all_filled b \<longleftrightarrow> (\<forall>p. in_grid b p \<longrightarrow> cell_value (cell_at b p) \<noteq> 0)"

text \<open>
  The order in which the work list decreases: the multiset of the boards on it, each
  round replacing one board by smaller ones.
\<close>

definition stack_less :: "((store \<times> nat list) \<times> (store \<times> nat list)) set" where
  "stack_less = inv_image (mult board_less) (\<lambda>(h, ps). mset (map ((!) h) ps))"

text \<open>The addresses on the work list are different objects of the store.\<close>

definition valid_stack :: "store \<Rightarrow> nat list \<Rightarrow> bool" where
  "valid_stack h ps \<longleftrightarrow> distinct ps \<and> (\<forall>a\<in>set ps. a < length h)"

text \<open>
  What a run of the loop leaves of the store it started with: the objects that were not
  on the work list are as they were.
\<close>

definition frame :: "store \<Rightarrow> nat list \<Rightarrow> py_error + (nat option \<times> store) \<Rightarrow> bool" where
  "frame h ps r \<longleftrightarrow>
     (case r of
        Inl e \<Rightarrow> True
      | Inr (res, h') \<Rightarrow>
          length h \<le> length h' \<and> (\<forall>a<length h. a \<notin> set ps \<longrightarrow> h' ! a = h ! a) \<and>
          (\<forall>a. res = Some a \<longrightarrow> a < length h'))"

text \<open>The boards on the work list, and the board a run returns.\<close>

definition stack_inv :: "int \<Rightarrow> store \<Rightarrow> nat list \<Rightarrow> nat option \<Rightarrow> bool" where
  "stack_inv bs h ps pz \<longleftrightarrow>
     (\<forall>a\<in>set ps. board_inv bs (h ! a)) \<and>
     (ps = [] \<longrightarrow> (\<forall>a. pz = Some a \<longrightarrow> board_inv bs (h ! a) \<and> all_filled (h ! a)))"

definition good :: "int \<Rightarrow> py_error + (nat option \<times> store) \<Rightarrow> bool" where
  "good bs r \<longleftrightarrow>
     (case r of
        Inl e \<Rightarrow> False
      | Inr (res, h') \<Rightarrow> (\<forall>a. res = Some a \<longrightarrow> board_inv bs (h' ! a) \<and> all_filled (h' ! a)))"

text \<open>Two runs raise the same exception, or return \<open>None\<close> both, or return equal boards.\<close>

definition same_result ::
  "(py_error + (nat option \<times> store)) option \<Rightarrow> (py_error + (nat option \<times> store)) option \<Rightarrow> bool" where
  "same_result x y \<longleftrightarrow>
     (\<exists>e. x = Some (Inl e) \<and> y = Some (Inl e)) \<or>
     (\<exists>r h' s g'. x = Some (Inr (r, h')) \<and> y = Some (Inr (s, g')) \<and>
        (\<forall>a. r = Some a \<longrightarrow> a < length h') \<and> (\<forall>a. s = Some a \<longrightarrow> a < length g') \<and>
        map_option ((!) h') r = map_option ((!) g') s)"

section \<open>Example boards\<close>

text \<open>
  A 4 by 4 board with the clues 1, 2, 3 in its first row; the same board after
  propagation, and after the assignment of 4 to the last cell of the row; and the board
  with the further clue 4 at row 1, column 3, which leaves the last cell of the first
  row without a candidate.
\<close>

definition row_clues :: "(int \<times> int \<times> int) list" where
  "row_clues = [(1, 0, 0), (2, 0, 1), (3, 0, 2)]"

definition row_board :: Sudoku where
  "row_board = projr (set_cells (Sudoku_init 2) row_clues)"

definition dead_end_board :: Sudoku where
  "dead_end_board = projr (set_cells row_board [(4, 1, 3)])"

definition row_board_filled :: Sudoku where
  "row_board_filled = projr (fill_in_all_knowns row_board)"

definition row_board_assigned :: Sudoku where
  "row_board_assigned = snd (projr (set_cell row_board 4 0 3))"

text \<open>
  What \<open>solve\<close> returns on the first example board, in a store that holds nothing else,
  and the two copies its first branching round creates.
\<close>

definition row_board_result :: "nat option \<times> store" where
  "row_board_result = projr (the (solve [row_board] 0))"

definition row_board_kids :: "Sudoku list" where
  "row_board_kids =
     [snd (projr (set_cell row_board_filled 3 1 0)), snd (projr (set_cell row_board_filled 4 1 0))]"

section \<open>Assignment and propagation\<close>

lemma mod_neg_index: "- int n \<le> i \<Longrightarrow> i < 0 \<Longrightarrow> i mod int n = int n + i"
proof -
  assume a: "- int n \<le> i" "i < 0"
  have "i mod int n = (i + int n) mod int n" by simp
  also have "\<dots> = i + int n" using a by (intro mod_pos_pos_trivial) auto
  finally show ?thesis by simp
qed

lemma py_index_Some: "- int n \<le> i \<Longrightarrow> i < int n \<Longrightarrow> py_index n i = Some (pos n i)"
  by (auto simp: py_index_def pos_def mod_neg_index)

lemma py_index_nat: "i < n \<Longrightarrow> py_index n (int i) = Some i"
  by (simp add: py_index_def)

lemma pos_less: "0 < n \<Longrightarrow> pos n i < n"
  by (simp add: pos_def nat_less_iff)

lemma pos_nat: "0 \<le> i \<Longrightarrow> i < int n \<Longrightarrow> pos n i = nat i"
  by (simp add: pos_def)

lemma get_cell_ok:
  "grid_ok n g \<Longrightarrow> py_index n row = Some i \<Longrightarrow> py_index n col = Some j \<Longrightarrow>
   get_cell g row col = Inr (g ! i ! j)"
  by (auto simp: get_cell_def grid_ok_def dest: py_index_less)

lemma upd_cell_applied:
  assumes "grid_ok n g" "py_index n row = Some i" "py_index n col = Some j"
  shows "\<exists>g'. upd_cell g row col f = Inr g' \<and> applied n {(i, j)} f g g'"
proof -
  have il: "i < n" and jl: "j < n" using assms by (auto dest: py_index_less)
  let ?g' = "g[i := (g ! i)[j := f (g ! i ! j)]]"
  have "upd_cell g row col f = Inr ?g'"
    using assms il by (simp add: upd_cell_def grid_ok_def)
  moreover have "applied n {(i, j)} f g ?g'"
    using assms(1) il jl by (auto simp: applied_def grid_ok_def nth_list_update)
  ultimately show ?thesis by blast
qed

lemma applied_all_cells:
  assumes "applied n S f g g'" "all_cells n Q g" "\<And>c. Q c \<Longrightarrow> Q (f c)"
  shows "all_cells n Q g'"
  using assms by (auto simp: applied_def all_cells_def)

lemma applied_trans:
  assumes "applied n S f g g1" "applied n T f g1 g2" "all_cells n Q g"
    and "\<And>c. Q c \<Longrightarrow> f (f c) = f c"
  shows "applied n (S \<union> T) f g g2"
  using assms by (auto simp: applied_def all_cells_def)

lemma applied_cong:
  assumes "applied n S f g g'" "\<And>i j. i < n \<Longrightarrow> j < n \<Longrightarrow> (i, j) \<in> S \<longleftrightarrow> (i, j) \<in> T"
  shows "applied n T f g g'"
  using assms by (auto simp: applied_def)

lemma for_each_applied:
  assumes "grid_ok n g" "all_cells n Q g"
    and f: "\<And>c. Q c \<Longrightarrow> Q (f c) \<and> f (f c) = f c"
    and body: "\<And>x g. x \<in> set xs \<Longrightarrow> grid_ok n g \<Longrightarrow> all_cells n Q g \<Longrightarrow>
                 \<exists>g'. body x g = Inr g' \<and> applied n (S x) f g g'"
  shows "\<exists>g'. for_each xs body g = Inr g' \<and> applied n (\<Union>x\<in>set xs. S x) f g g'"
  using assms(1,2) body
proof (induction xs arbitrary: g)
  case Nil
  then show ?case by (simp add: applied_def)
next
  case (Cons x xs)
  from Cons.prems(3)[of x g] Cons.prems(1,2) obtain g1
    where g1: "body x g = Inr g1" "applied n (S x) f g g1" by auto
  have ok1: "grid_ok n g1" using g1(2) by (simp add: applied_def)
  have q1: "all_cells n Q g1" using applied_all_cells[OF g1(2) Cons.prems(2)] f by blast
  from Cons.IH[OF ok1 q1] Cons.prems(3) obtain g'
    where g': "for_each xs body g1 = Inr g'" "applied n (\<Union>x\<in>set xs. S x) f g1 g'" by auto
  have "applied n (S x \<union> (\<Union>x\<in>set xs. S x)) f g g'"
    using applied_trans[OF g1(2) g'(2) Cons.prems(2)] f by blast
  with g1(1) g'(1) show ?case by simp
qed

lemma div_eq_range:
  fixes bs :: int
  assumes "0 < bs"
  shows "r div bs = q \<longleftrightarrow> q * bs \<le> r \<and> r < q * bs + bs"
proof
  assume "r div bs = q"
  moreover have "r = bs * (r div bs) + r mod bs" by simp
  moreover have "0 \<le> r mod bs" "r mod bs < bs" using assms by auto
  ultimately show "q * bs \<le> r \<and> r < q * bs + bs"
    by (metis add.commute add_strict_left_mono le_add_same_cancel1 mult.commute)
next
  assume a: "q * bs \<le> r \<and> r < q * bs + bs"
  have "(r - q * bs + q * bs) div bs = q + (r - q * bs) div bs"
    by (rule div_mult_self1) (use assms in simp)
  moreover have "(r - q * bs) div bs = 0"
    using a by (intro div_pos_pos_trivial) auto
  ultimately show "r div bs = q" by simp
qed

lemma sq_bounds:
  fixes bs :: int
  assumes "0 < bs"
  shows "- bs \<le> q \<and> q < bs \<longleftrightarrow> - (bs * bs) \<le> q * bs \<and> q * bs + bs \<le> bs * bs"
proof -
  have "- bs \<le> q \<longleftrightarrow> (- bs) * bs \<le> q * bs"
    using assms by (simp only: mult_le_cancel_right) auto
  moreover have "q < bs \<longleftrightarrow> q + 1 \<le> bs" by auto
  moreover have "q + 1 \<le> bs \<longleftrightarrow> (q + 1) * bs \<le> bs * bs"
    using assms by (simp only: mult_le_cancel_right) auto
  ultimately show ?thesis by (simp add: algebra_simps)
qed

lemma div_bounds:
  fixes bs :: int
  assumes "0 < bs" "- (bs * bs) \<le> row" "row < bs * bs"
  shows "- bs \<le> row div bs \<and> row div bs < bs"
proof -
  let ?q = "row div bs"
  have r: "?q * bs \<le> row \<and> row < ?q * bs + bs"
    using div_eq_range[OF assms(1), of row ?q] by simp
  with assms have "?q * bs < bs * bs" by linarith
  then have 1: "?q < bs" using assms(1) by (auto simp: mult_less_cancel_right)
  from r assms have "(- bs) * bs < (?q + 1) * bs" by (simp add: algebra_simps)
  then have "- bs < ?q + 1" using assms(1) by (auto simp only: mult_less_cancel_right)
  with 1 show ?thesis by simp
qed

lemma box_bounds:
  fixes bs :: int
  assumes "0 < bs" "- (bs * bs) \<le> row" "row < bs * bs" "r div bs = row div bs"
  shows "- (bs * bs) \<le> r \<and> r < bs * bs"
proof -
  from assms(4) have "row div bs * bs \<le> r \<and> r < row div bs * bs + bs"
    using div_eq_range[OF assms(1)] by blast
  moreover from div_bounds[OF assms(1-3)] sq_bounds[OF assms(1), of "row div bs"]
  have "- (bs * bs) \<le> row div bs * bs \<and> row div bs * bs + bs \<le> bs * bs" by blast
  ultimately show ?thesis by linarith
qed

lemma mod_sq_div:
  fixes bs :: int
  assumes "0 < bs" "- (bs * bs) \<le> r" "r < bs * bs"
  shows "(r mod (bs * bs)) div bs = (if r < 0 then r div bs + bs else r div bs)"
proof (cases "r < 0")
  case True
  have "r mod (bs * bs) = (r + bs * bs) mod (bs * bs)" by simp
  also have "\<dots> = r + bs * bs" using assms True by (intro mod_pos_pos_trivial) auto
  finally have "(r mod (bs * bs)) div bs = (r + bs * bs) div bs" by simp
  also have "\<dots> = bs + r div bs" using assms by simp
  finally show ?thesis using True by simp
next
  case False
  then have "r mod (bs * bs) = r" using assms by (intro mod_pos_pos_trivial) auto
  with False show ?thesis by simp
qed

lemma div_neg_iff:
  fixes bs :: int
  assumes "0 < bs"
  shows "r div bs < 0 \<longleftrightarrow> r < 0"
  using assms by (simp add: neg_imp_zdiv_neg_iff div_neg_pos_less0 pos_imp_zdiv_neg_iff)

lemma same_box_iff:
  fixes bs :: int
  assumes "0 < bs" "- (bs * bs) \<le> row" "row < bs * bs"
  shows "r div bs = row div bs \<longleftrightarrow>
         - (bs * bs) \<le> r \<and> r < bs * bs \<and> (r < 0 \<longleftrightarrow> row < 0) \<and>
         (r mod (bs * bs)) div bs = (row mod (bs * bs)) div bs"
proof
  assume e: "r div bs = row div bs"
  have b: "- (bs * bs) \<le> r \<and> r < bs * bs" using box_bounds[OF assms e] .
  have s: "r < 0 \<longleftrightarrow> row < 0" using e div_neg_iff[OF assms(1)] by metis
  show "- (bs * bs) \<le> r \<and> r < bs * bs \<and> (r < 0 \<longleftrightarrow> row < 0) \<and>
         (r mod (bs * bs)) div bs = (row mod (bs * bs)) div bs"
    using b s e mod_sq_div[OF assms] mod_sq_div[OF assms(1), of r] by simp
next
  assume a: "- (bs * bs) \<le> r \<and> r < bs * bs \<and> (r < 0 \<longleftrightarrow> row < 0) \<and>
         (r mod (bs * bs)) div bs = (row mod (bs * bs)) div bs"
  then show "r div bs = row div bs"
    using mod_sq_div[OF assms] mod_sq_div[OF assms(1), of r] by (auto split: if_splits)
qed

lemma set_py_range: "set (py_range a b) = {a..<b}"
  by (auto simp: py_range_def)

lemma int_pos: "0 < n \<Longrightarrow> int (pos n r) = r mod int n"
  by (simp add: pos_def)

lemma box_valid:
  assumes "0 < bs" "n = nat (bs * bs)" "- int n \<le> row" "row < int n"
    and "r \<in> set (py_range (row div bs * bs) (row div bs * bs + bs))"
  shows "- int n \<le> r \<and> r < int n"
proof -
  have n: "int n = bs * bs" using assms(1,2) by simp
  from assms(5) have "r div bs = row div bs"
    using div_eq_range[OF assms(1), of r "row div bs"] by (simp add: set_py_range)
  from box_bounds[OF assms(1) _ _ this] assms(3,4) show ?thesis by (simp add: n)
qed

lemma box_positions:
  assumes "0 < bs" "n = nat (bs * bs)" "k = nat bs" "- int n \<le> row" "row < int n" "i < n"
  shows "(\<exists>r\<in>set (py_range (row div bs * bs) (row div bs * bs + bs)). pos n r = i)
           \<longleftrightarrow> i div k = pos n row div k"
proof -
  have n: "int n = bs * bs" and n0: "0 < n" using assms(1,2) by simp_all
  have rw: "- (bs * bs) \<le> row" "row < bs * bs" using assms(4,5) n by simp_all
  have divk: "\<And>m. int (m div k) = int m div bs" using assms(1,3) by (simp add: zdiv_int)
  have rng: "\<And>r. r \<in> set (py_range (row div bs * bs) (row div bs * bs + bs)) \<longleftrightarrow> r div bs = row div bs"
    using div_eq_range[OF assms(1)] by (auto simp: set_py_range)
  show ?thesis
  proof
    assume "\<exists>r\<in>set (py_range (row div bs * bs) (row div bs * bs + bs)). pos n r = i"
    then obtain r where r: "r div bs = row div bs" "pos n r = i" using rng by blast
    from r(1) have "(r mod (bs * bs)) div bs = (row mod (bs * bs)) div bs"
      using same_box_iff[OF assms(1) rw, of r] by blast
    then have "int (pos n r) div bs = int (pos n row) div bs"
      using n0 by (simp add: int_pos n)
    then have "int (pos n r div k) = int (pos n row div k)" by (simp add: divk)
    with r(2) show "i div k = pos n row div k" by simp
  next
    assume e: "i div k = pos n row div k"
    define r where "r = (if row < 0 then int i - bs * bs else int i)"
    have b: "- (bs * bs) \<le> r \<and> r < bs * bs \<and> (r < 0 \<longleftrightarrow> row < 0)"
      using assms(6) n by (auto simp: r_def)
    have m: "r mod (bs * bs) = int i"
    proof (cases "row < 0")
      case True
      then have "r mod (bs * bs) = (int i - bs * bs) mod (bs * bs)" by (simp add: r_def)
      also have "\<dots> = int i mod (bs * bs)" by (simp add: mod_diff_right_eq[symmetric] del: mod_diff_right_eq)
      also have "\<dots> = int i" using assms(6) n by simp
      finally show ?thesis .
    next
      case False
      then show ?thesis using assms(6) n by (simp add: r_def)
    qed
    from e have "int i div bs = int (pos n row) div bs" by (simp add: divk[symmetric])
    then have "(r mod (bs * bs)) div bs = (row mod (bs * bs)) div bs"
      using n0 by (simp add: m int_pos n)
    with b have "r div bs = row div bs"
      using same_box_iff[OF assms(1) rw, of r] by blast
    moreover have "pos n r = i" using m n by (simp add: pos_def)
    ultimately show "\<exists>r\<in>set (py_range (row div bs * bs) (row div bs * bs + bs)). pos n r = i"
      using rng by blast
  qed
qed

lemma remove_from_possible_eq:
  "remove_from_possible v c = c\<lparr>possible := remove1 v (possible c)\<rparr>"
  by (simp add: remove_from_possible_def remove1_idem)

lemma remove_from_possible_idem:
  "cands_distinct c \<Longrightarrow>
   cands_distinct (remove_from_possible v c) \<and>
   remove_from_possible v (remove_from_possible v c) = remove_from_possible v c"
  by (simp add: remove_from_possible_eq cands_distinct_def remove1_idem)

lemma remove_value_from_possibles_ok:
  assumes bs: "0 < bs" and n: "n = nat (bs * bs)" and k: "k = nat bs"
    and b: "box_size b = bs" "max_val b = bs * bs"
    and g: "grid_ok n (cell b)" "all_cells n cands_distinct (cell b)"
    and rc: "- int n \<le> row" "row < int n" "- int n \<le> col" "col < int n"
  shows "\<exists>g'. remove_value_from_possibles b v row col = Inr (b\<lparr>cell := g'\<rparr>) \<and>
           applied n {q. peer k (pos n row, pos n col) q} (remove_from_possible v) (cell b) g'"
proof -
  let ?f = "remove_from_possible v"
  let ?i0 = "pos n row" and ?j0 = "pos n col"
  have nn: "int n = bs * bs" and n0: "0 < n" using bs n by simp_all
  have idx: "\<And>x. 0 \<le> x \<Longrightarrow> x < int n \<Longrightarrow> py_index n x = Some (nat x)"
    by (simp add: py_index_def)
  have pr: "py_index n row = Some ?i0" and pc: "py_index n col = Some ?j0"
    using rc by (simp_all add: py_index_Some)
  \<comment> \<open>the row\<close>
  have "\<exists>g1. for_each (py_range 0 (max_val b)) (\<lambda>c g. upd_cell g row c ?f) (cell b) = Inr g1 \<and>
          applied n (\<Union>c\<in>set (py_range 0 (max_val b)). {(?i0, nat c)}) ?f (cell b) g1"
    using g
  proof (rule for_each_applied[where Q = cands_distinct])
    show "\<And>c. cands_distinct c \<Longrightarrow> cands_distinct (?f c) \<and> ?f (?f c) = ?f c"
      by (rule remove_from_possible_idem)
  next
    fix x and g :: "Cell list list"
    assume x: "x \<in> set (py_range 0 (max_val b))" and gg: "grid_ok n g"
    from x have "0 \<le> x" "x < int n" using b(2) nn by (simp_all add: set_py_range)
    then have "py_index n x = Some (nat x)" by (rule idx)
    from upd_cell_applied[OF gg pr this]
    show "\<exists>g'. upd_cell g row x ?f = Inr g' \<and> applied n {(?i0, nat x)} ?f g g'" .
  qed
  then obtain g1 where g1: "for_each (py_range 0 (max_val b)) (\<lambda>c g. upd_cell g row c ?f) (cell b) = Inr g1"
    and a1': "applied n (\<Union>c\<in>set (py_range 0 (max_val b)). {(?i0, nat c)}) ?f (cell b) g1" by blast
  have a1: "applied n {q. fst q = ?i0} ?f (cell b) g1"
  proof (rule applied_cong[OF a1'])
    fix i j assume "i < n" "j < n"
    then have "int j \<in> set (py_range 0 (max_val b))" using b(2) nn by (simp add: set_py_range)
    then show "((i, j) \<in> (\<Union>c\<in>set (py_range 0 (max_val b)). {(?i0, nat c)})) = ((i, j) \<in> {q. fst q = ?i0})"
      by force
  qed
  have ok1: "grid_ok n g1" using a1 by (simp add: applied_def)
  have q1: "all_cells n cands_distinct g1"
    using applied_all_cells[OF a1 g(2)] remove_from_possible_idem by blast
  \<comment> \<open>the column\<close>
  have "\<exists>g2. for_each (py_range 0 (max_val b)) (\<lambda>r g. upd_cell g r col ?f) g1 = Inr g2 \<and>
          applied n (\<Union>r\<in>set (py_range 0 (max_val b)). {(nat r, ?j0)}) ?f g1 g2"
    using ok1 q1
  proof (rule for_each_applied[where Q = cands_distinct])
    show "\<And>c. cands_distinct c \<Longrightarrow> cands_distinct (?f c) \<and> ?f (?f c) = ?f c"
      by (rule remove_from_possible_idem)
  next
    fix x and g :: "Cell list list"
    assume x: "x \<in> set (py_range 0 (max_val b))" and gg: "grid_ok n g"
    from x have "0 \<le> x" "x < int n" using b(2) nn by (simp_all add: set_py_range)
    then have "py_index n x = Some (nat x)" by (rule idx)
    from upd_cell_applied[OF gg this pc]
    show "\<exists>g'. upd_cell g x col ?f = Inr g' \<and> applied n {(nat x, ?j0)} ?f g g'" .
  qed
  then obtain g2 where g2: "for_each (py_range 0 (max_val b)) (\<lambda>r g. upd_cell g r col ?f) g1 = Inr g2"
    and a2': "applied n (\<Union>r\<in>set (py_range 0 (max_val b)). {(nat r, ?j0)}) ?f g1 g2" by blast
  have a2: "applied n {q. snd q = ?j0} ?f g1 g2"
  proof (rule applied_cong[OF a2'])
    fix i j assume "i < n" "j < n"
    then have "int i \<in> set (py_range 0 (max_val b))" using b(2) nn by (simp add: set_py_range)
    then show "((i, j) \<in> (\<Union>r\<in>set (py_range 0 (max_val b)). {(nat r, ?j0)})) = ((i, j) \<in> {q. snd q = ?j0})"
      by force
  qed
  have ok2: "grid_ok n g2" using a2 by (simp add: applied_def)
  have q2: "all_cells n cands_distinct g2"
    using applied_all_cells[OF a2 q1] remove_from_possible_idem by blast
  \<comment> \<open>the box\<close>
  let ?rows = "py_range (row div bs * bs) (row div bs * bs + bs)"
  let ?cols = "py_range (col div bs * bs) (col div bs * bs + bs)"
  have "\<exists>g3. for_each ?rows (\<lambda>r. for_each ?cols (\<lambda>c g. upd_cell g r c ?f)) g2 = Inr g3 \<and>
          applied n (\<Union>r\<in>set ?rows. \<Union>c\<in>set ?cols. {(pos n r, pos n c)}) ?f g2 g3"
    using ok2 q2
  proof (rule for_each_applied[where Q = cands_distinct])
    show "\<And>c. cands_distinct c \<Longrightarrow> cands_distinct (?f c) \<and> ?f (?f c) = ?f c"
      by (rule remove_from_possible_idem)
  next
    fix r and g :: "Cell list list" assume r: "r \<in> set ?rows" and gg: "grid_ok n g" "all_cells n cands_distinct g"
    have pr': "py_index n r = Some (pos n r)"
      using box_valid[OF bs n rc(1,2) r] by (simp add: py_index_Some)
    show "\<exists>g'. for_each ?cols (\<lambda>c g. upd_cell g r c ?f) g = Inr g' \<and>
            applied n (\<Union>c\<in>set ?cols. {(pos n r, pos n c)}) ?f g g'"
      using gg
    proof (rule for_each_applied[where Q = cands_distinct])
      show "\<And>c. cands_distinct c \<Longrightarrow> cands_distinct (?f c) \<and> ?f (?f c) = ?f c"
        by (rule remove_from_possible_idem)
    next
      fix c and g :: "Cell list list"
      assume c: "c \<in> set ?cols" and gc: "grid_ok n g"
      have "py_index n c = Some (pos n c)"
        using box_valid[OF bs n rc(3,4) c] by (simp add: py_index_Some)
      from upd_cell_applied[OF gc pr' this]
      show "\<exists>g'. upd_cell g r c ?f = Inr g' \<and> applied n {(pos n r, pos n c)} ?f g g'" .
    qed
  qed
  then obtain g3 where g3: "for_each ?rows (\<lambda>r. for_each ?cols (\<lambda>c g. upd_cell g r c ?f)) g2 = Inr g3"
    and a3': "applied n (\<Union>r\<in>set ?rows. \<Union>c\<in>set ?cols. {(pos n r, pos n c)}) ?f g2 g3" by blast
  have a3: "applied n {q. fst q div k = ?i0 div k \<and> snd q div k = ?j0 div k} ?f g2 g3"
  proof (rule applied_cong[OF a3'])
    fix i j assume ij: "i < n" "j < n"
    have "((i, j) \<in> (\<Union>r\<in>set ?rows. \<Union>c\<in>set ?cols. {(pos n r, pos n c)}))
        \<longleftrightarrow> (\<exists>r\<in>set ?rows. pos n r = i) \<and> (\<exists>c\<in>set ?cols. pos n c = j)" by auto
    also have "\<dots> \<longleftrightarrow> i div k = ?i0 div k \<and> j div k = ?j0 div k"
      using box_positions[OF bs n k rc(1,2) ij(1)] box_positions[OF bs n k rc(3,4) ij(2)] by simp
    finally show "((i, j) \<in> (\<Union>r\<in>set ?rows. \<Union>c\<in>set ?cols. {(pos n r, pos n c)}))
        = ((i, j) \<in> {q. fst q div k = ?i0 div k \<and> snd q div k = ?j0 div k})" by simp
  qed
  have a12: "applied n ({q. fst q = ?i0} \<union> {q. snd q = ?j0}) ?f (cell b) g2"
    using applied_trans[OF a1 a2 g(2)] remove_from_possible_idem by blast
  have "applied n ({q. fst q = ?i0} \<union> {q. snd q = ?j0} \<union> {q. fst q div k = ?i0 div k \<and> snd q div k = ?j0 div k})
          ?f (cell b) g3"
    using applied_trans[OF a12 a3 g(2)] remove_from_possible_idem by blast
  then have "applied n {q. peer k (?i0, ?j0) q} ?f (cell b) g3"
    by (rule applied_cong) (auto simp: peer_def)
  moreover have "remove_value_from_possibles b v row col = Inr (b\<lparr>cell := g3\<rparr>)"
    using g1 g2 g3 bs by (simp add: remove_value_from_possibles_def b Let_def)
  ultimately show ?thesis by blast
qed

lemma cell_ok_remove: "cell_ok N c \<Longrightarrow> cell_ok N (remove_from_possible v c)"
  using set_remove1_subset[of v "possible c"]
  by (auto simp: cell_ok_def remove_from_possible_eq sorted_remove1)

lemma cell_ok_init: "v \<noteq> 0 \<Longrightarrow> 1 \<le> v \<Longrightarrow> v \<le> N \<Longrightarrow> cell_ok N (Cell_init v N)"
  by (simp add: cell_ok_def Cell_init_def)

lemma cell_ok_init0: "cell_ok N (Cell_init 0 N)"
  by (auto simp: cell_ok_def Cell_init_def py_range_def)

lemma set_cell_range:
  assumes "shape bs b" "\<not> (- (bs * bs) \<le> row \<and> row < bs * bs \<and> - (bs * bs) \<le> col \<and> col < bs * bs)"
  shows "set_cell b v row col = Inl IndexError"
proof -
  let ?n = "nat (bs * bs)"
  have g: "length (cell b) = ?n" "\<And>i. i < ?n \<Longrightarrow> length (cell b ! i) = ?n"
    using assms(1) by (auto simp: shape_def grid_ok_def)
  have "get_cell (cell b) row col = Inl IndexError"
  proof (cases "py_index ?n row")
    case None
    then show ?thesis by (simp add: get_cell_def g)
  next
    case (Some i)
    then have r: "- (bs * bs) \<le> row \<and> row < bs * bs" and i: "i < ?n"
      by (auto simp: py_index_def split: if_splits)
    with assms(2) have "py_index ?n col = None" by (auto simp: py_index_def)
    with Some i show ?thesis by (simp add: get_cell_def g)
  qed
  then show ?thesis by (simp add: set_cell_def)
qed

lemma set_cell_False:
  assumes "shape bs b" "n = nat (bs * bs)"
    and "- int n \<le> row" "row < int n" "- int n \<le> col" "col < int n"
    and "v \<notin> set (possible (cell b ! pos n row ! pos n col))"
  shows "set_cell b v row col = Inr (False, b)"
proof -
  have "get_cell (cell b) row col = Inr (cell b ! pos n row ! pos n col)"
    using assms by (intro get_cell_ok[where n = n]) (simp_all add: shape_def py_index_Some)
  with assms(7) show ?thesis by (simp add: set_cell_def)
qed

lemma set_cell_True:
  assumes sh: "shape bs b" and n: "n = nat (bs * bs)" and k: "k = nat bs"
    and rc: "- int n \<le> row" "row < int n" "- int n \<le> col" "col < int n"
    and v: "v \<in> set (possible (cell b ! pos n row ! pos n col))"
  shows "\<exists>b'. set_cell b v row col = Inr (True, b') \<and> shape bs b' \<and>
           cells_filled b' = cells_filled b + 1 \<and>
           (\<forall>i<n. \<forall>j<n. cell b' ! i ! j =
              (if (i, j) = (pos n row, pos n col)
               then \<lparr>cell_value = v, possible = [], cell_max_val = bs * bs\<rparr>
               else if peer k (pos n row, pos n col) (i, j)
               then remove_from_possible v (cell b ! i ! j)
               else cell b ! i ! j))"
proof -
  let ?i0 = "pos n row" and ?j0 = "pos n col"
  let ?c0 = "cell b ! ?i0 ! ?j0"
  let ?f = "remove_from_possible v"
  let ?new = "\<lparr>cell_value = v, possible = [], cell_max_val = bs * bs\<rparr>"
  have n0: "0 < n" using rc by linarith
  then have bs: "0 < bs" using sh n by (auto simp: shape_def zero_less_mult_iff)
  have nn: "int n = bs * bs" using n0 n by simp
  have g: "grid_ok n (cell b)" and ok: "all_cells n (cell_ok (bs * bs)) (cell b)"
    and bx: "box_size b = bs" "max_val b = bs * bs"
    using sh n by (simp_all add: shape_def)
  have il: "?i0 < n" "?j0 < n" using n0 by (simp_all add: pos_less)
  have pr: "py_index n row = Some ?i0" and pc: "py_index n col = Some ?j0"
    using rc by (simp_all add: py_index_Some)
  have c0: "cell_ok (bs * bs) ?c0" using ok il by (simp add: all_cells_def)
  with v have v1: "1 \<le> v" "v \<le> bs * bs" "v \<noteq> 0" by (auto simp: cell_ok_def)
  have set: "Cell_set ?c0 v = ?new"
    using c0 v1 by (simp add: Cell_set_def Cell_init_def cell_ok_def)
  have get: "get_cell (cell b) row col = Inr ?c0" using get_cell_ok[OF g pr pc] .
  from upd_cell_applied[OF g pr pc, of "\<lambda>x. Cell_set x v"] obtain g1 where
    g1: "upd_cell (cell b) row col (\<lambda>x. Cell_set x v) = Inr g1"
    and a1: "applied n {(?i0, ?j0)} (\<lambda>x. Cell_set x v) (cell b) g1" by blast
  let ?b1 = "b\<lparr>cell := g1, cells_filled := cells_filled b + 1\<rparr>"
  have ok1: "grid_ok n g1" using a1 by (simp add: applied_def)
  have g1v: "\<And>i j. i < n \<Longrightarrow> j < n \<Longrightarrow> g1 ! i ! j = (if (i, j) = (?i0, ?j0) then ?new else cell b ! i ! j)"
    using a1 set by (auto simp: applied_def)
  have okc1: "all_cells n (cell_ok (bs * bs)) g1"
    using ok g1v cell_ok_init[OF v1(3,1,2)] by (auto simp: all_cells_def Cell_init_def v1)
  then have d1: "all_cells n cands_distinct g1"
    by (auto simp: all_cells_def cell_ok_def cands_distinct_def)
  from remove_value_from_possibles_ok[OF bs n k, of ?b1 row col v] bx ok1 d1 rc
  obtain g' where r: "remove_value_from_possibles ?b1 v row col = Inr (?b1\<lparr>cell := g'\<rparr>)"
    and a2: "applied n {q. peer k (?i0, ?j0) q} ?f g1 g'" by auto
  let ?b' = "?b1\<lparr>cell := g'\<rparr>"
  have res: "set_cell b v row col = Inr (True, ?b')"
    using get v g1 r by (simp add: set_cell_def)
  have ok2: "grid_ok n g'" using a2 by (simp add: applied_def)
  have okc2: "all_cells n (cell_ok (bs * bs)) g'"
    using applied_all_cells[OF a2 okc1] cell_ok_remove by blast
  have fnew: "?f ?new = ?new" by (simp add: remove_from_possible_def)
  have self: "peer k (?i0, ?j0) (?i0, ?j0)" by (simp add: peer_def)
  have vals: "\<forall>i<n. \<forall>j<n. g' ! i ! j =
              (if (i, j) = (?i0, ?j0) then ?new
               else if peer k (?i0, ?j0) (i, j) then ?f (cell b ! i ! j) else cell b ! i ! j)"
  proof (intro allI impI)
    fix i j assume ij: "i < n" "j < n"
    have "g' ! i ! j = (if peer k (?i0, ?j0) (i, j) then ?f (g1 ! i ! j) else g1 ! i ! j)"
      using a2 ij by (simp add: applied_def)
    then show "g' ! i ! j =
              (if (i, j) = (?i0, ?j0) then ?new
               else if peer k (?i0, ?j0) (i, j) then ?f (cell b ! i ! j) else cell b ! i ! j)"
      using g1v[OF ij] fnew self by auto
  qed
  have "shape bs ?b'" using sh ok2 okc2 n by (simp add: shape_def)
  with res vals show ?thesis by (intro exI[of _ ?b']) simp
qed

lemma peer_sym: "peer k p q \<longleftrightarrow> peer k q p"
  by (auto simp: peer_def)

lemma grid_sum_cong:
  assumes "grid_ok n g" "grid_ok n g'"
    and "\<And>i j. i < n \<Longrightarrow> j < n \<Longrightarrow> m (g' ! i ! j) = m (g ! i ! j)"
  shows "grid_sum m g' = grid_sum m g"
proof -
  have "map (\<lambda>row. sum_list (map m row)) g' = map (\<lambda>row. sum_list (map m row)) g"
  proof (rule nth_equalityI)
    show "length (map (\<lambda>row. sum_list (map m row)) g') = length (map (\<lambda>row. sum_list (map m row)) g)"
      using assms(1,2) by (simp add: grid_ok_def)
  next
    fix i assume "i < length (map (\<lambda>row. sum_list (map m row)) g')"
    then have i: "i < n" using assms(2) by (simp add: grid_ok_def)
    have "map m (g' ! i) = map m (g ! i)"
      using assms i by (intro nth_equalityI) (auto simp: grid_ok_def)
    then show "map (\<lambda>row. sum_list (map m row)) g' ! i = map (\<lambda>row. sum_list (map m row)) g ! i"
      using assms(1,2) i by (simp add: grid_ok_def)
  qed
  then show ?thesis by (simp add: grid_sum_def)
qed

lemma sum_list_bounded: "(\<And>x. x \<in> set xs \<Longrightarrow> f x \<le> (c::nat)) \<Longrightarrow> sum_list (map f xs) \<le> length xs * c"
  by (induction xs) (auto simp: add_mono)

lemma grid_sum_filled_le:
  assumes "grid_ok n g"
  shows "grid_sum filled g \<le> n * n"
proof -
  have "\<And>row. row \<in> set g \<Longrightarrow> sum_list (map filled row) \<le> n"
  proof -
    fix row assume "row \<in> set g"
    then have "length row = n" using assms by (auto simp: grid_ok_def in_set_conv_nth)
    moreover have "sum_list (map filled row) \<le> length row * 1"
      by (rule sum_list_bounded) (simp add: filled_def)
    ultimately show "sum_list (map filled row) \<le> n" by simp
  qed
  then have "sum_list (map (\<lambda>row. sum_list (map filled row)) g) \<le> length g * n"
    by (rule sum_list_bounded)
  then show ?thesis using assms by (simp add: grid_sum_def grid_ok_def)
qed

lemma set_cell_inv_True:
  assumes inv: "board_inv bs b" and n: "n = nat (bs * bs)"
    and rc: "- int n \<le> row" "row < int n" "- int n \<le> col" "col < int n"
    and v: "v \<in> set (possible (cell b ! pos n row ! pos n col))"
  shows "\<exists>b'. set_cell b v row col = Inr (True, b') \<and> board_inv bs b' \<and>
           cells_filled b' = cells_filled b + 1 \<and>
           cell_at b' (pos n row, pos n col) = \<lparr>cell_value = v, possible = [], cell_max_val = bs * bs\<rparr> \<and>
           (\<forall>q. in_grid b q \<and> peer (nat bs) (pos n row, pos n col) q \<longrightarrow> v \<notin> set (possible (cell_at b' q))) \<and>
           (\<forall>q. in_grid b q \<and> q \<noteq> (pos n row, pos n col) \<longrightarrow>
                 cell_value (cell_at b' q) = cell_value (cell_at b q) \<and>
                 possible (cell_at b' q) =
                   (if peer (nat bs) (pos n row, pos n col) q then remove1 v (possible (cell_at b q))
                    else possible (cell_at b q)))"
proof -
  let ?p0 = "(pos n row, pos n col)"
  let ?k = "nat bs"
  let ?new = "\<lparr>cell_value = v, possible = [], cell_max_val = bs * bs\<rparr>"
  have sh: "shape bs b" and snd: "cands_sound b" and dis: "peers_distinct b"
    and cnt: "cells_filled b = int (grid_sum filled (cell b))"
    using inv by (simp_all add: board_inv_def)
  have bx: "box_size b = bs" "max_val b = bs * bs" "grid_ok n (cell b)"
    and okc: "all_cells n (cell_ok (bs * bs)) (cell b)"
    using sh n by (simp_all add: shape_def)
  from set_cell_True[OF sh n refl rc v] obtain b' where
    res: "set_cell b v row col = Inr (True, b')" and sh': "shape bs b'"
    and cf: "cells_filled b' = cells_filled b + 1"
    and vals: "\<And>i j. i < n \<Longrightarrow> j < n \<Longrightarrow> cell b' ! i ! j =
              (if (i, j) = ?p0 then ?new
               else if peer ?k ?p0 (i, j) then remove_from_possible v (cell b ! i ! j)
               else cell b ! i ! j)"
    by blast
  have bx': "box_size b' = bs" "max_val b' = bs * bs" "grid_ok n (cell b')"
    using sh' n by (simp_all add: shape_def)
  have n0: "0 < n" using rc by linarith
  have p0: "in_grid b ?p0" using n0 by (simp add: in_grid_def bx n[symmetric] pos_less)
  have ig: "\<And>q. in_grid b' q = in_grid b q" by (simp add: in_grid_def bx bx')
  have at: "\<And>q. in_grid b q \<Longrightarrow> cell_at b' q =
              (if q = ?p0 then ?new
               else if peer ?k ?p0 q then remove_from_possible v (cell_at b q)
               else cell_at b q)"
    using vals by (auto simp: in_grid_def cell_at_def bx n[symmetric] prod_eq_iff)
  have c_ok: "\<And>q. in_grid b q \<Longrightarrow> cell_ok (bs * bs) (cell_at b q)"
    using okc by (auto simp: all_cells_def in_grid_def cell_at_def bx n[symmetric])
  have val: "\<And>q. in_grid b q \<Longrightarrow>
      cell_value (cell_at b' q) = (if q = ?p0 then v else cell_value (cell_at b q))"
    by (simp add: at remove_from_possible_eq)
  have pos': "\<And>q. in_grid b q \<Longrightarrow> q \<noteq> ?p0 \<Longrightarrow>
      possible (cell_at b' q) =
        (if peer ?k ?p0 q then remove1 v (possible (cell_at b q)) else possible (cell_at b q))"
    by (simp add: at remove_from_possible_eq)
  have sub: "\<And>q. in_grid b q \<Longrightarrow> set (possible (cell_at b' q)) \<subseteq> set (possible (cell_at b q))"
    using set_remove1_subset[of v] by (auto simp: at remove_from_possible_eq)
  have gone: "\<And>q. in_grid b q \<Longrightarrow> peer ?k ?p0 q \<Longrightarrow> v \<notin> set (possible (cell_at b' q))"
    using c_ok by (auto simp: at remove_from_possible_eq cell_ok_def)
  have v0: "v \<in> set (possible (cell_at b ?p0))" using v by (simp add: cell_at_def)
  have old0: "cell_value (cell_at b ?p0) = 0"
    using c_ok[OF p0] v0 by (auto simp: cell_ok_def)
  have vne: "v \<noteq> 0" using c_ok[OF p0] v0 by (auto simp: cell_ok_def)
  have nov: "\<And>q. in_grid b q \<Longrightarrow> peer ?k ?p0 q \<Longrightarrow> cell_value (cell_at b q) \<noteq> v"
    using snd p0 v0 unfolding cands_sound_def bx by blast
  have snd': "cands_sound b'"
    unfolding cands_sound_def bx' ig
  proof (intro allI impI, elim conjE)
    fix p q assume p: "in_grid b p" and q: "in_grid b q" and pq: "peer ?k p q"
    show "cell_value (cell_at b' q) \<notin> set (possible (cell_at b' p))"
    proof (cases "q = ?p0")
      case True
      with pq have "peer ?k ?p0 p" by (simp add: peer_sym)
      from gone[OF p this] val[OF q] True show ?thesis by simp
    next
      case False
      have "cell_value (cell_at b q) \<notin> set (possible (cell_at b p))"
        using snd p q pq unfolding cands_sound_def bx by blast
      with sub[OF p] val[OF q] False show ?thesis by auto
    qed
  qed
  have dis': "peers_distinct b'"
    unfolding peers_distinct_def bx' ig
  proof (intro allI impI, elim conjE)
    fix p q assume p: "in_grid b p" and q: "in_grid b q" and ne: "p \<noteq> q"
      and pq: "peer ?k p q" and nz: "cell_value (cell_at b' p) \<noteq> 0"
    show "cell_value (cell_at b' p) \<noteq> cell_value (cell_at b' q)"
    proof (cases "p = ?p0")
      case True
      with ne have "q \<noteq> ?p0" by auto
      moreover have "cell_value (cell_at b q) \<noteq> v" using nov[OF q] pq True by simp
      ultimately show ?thesis using True val[OF p] val[OF q] by simp
    next
      case pf: False
      show ?thesis
      proof (cases "q = ?p0")
        case True
        with pq have "peer ?k ?p0 p" by (simp add: peer_sym)
        from nov[OF p this] True pf val[OF p] val[OF q] show ?thesis by simp
      next
        case False
        from nz pf val[OF p] have "cell_value (cell_at b p) \<noteq> 0" by simp
        then have "cell_value (cell_at b p) \<noteq> cell_value (cell_at b q)"
          using dis p q ne pq unfolding peers_distinct_def bx by blast
        with pf False val[OF p] val[OF q] show ?thesis by simp
      qed
    qed
  qed
  \<comment> \<open>the count of filled cells\<close>
  let ?i0 = "pos n row" and ?j0 = "pos n col"
  have il: "?i0 < n" "?j0 < n" using n0 by (simp_all add: pos_less)
  have py: "py_index n (int ?i0) = Some ?i0" "py_index n (int ?j0) = Some ?j0"
    using il by (simp_all add: py_index_nat)
  from upd_cell_applied[OF bx(3) py, of "\<lambda>_. ?new"] obtain g1 where
    u: "upd_cell (cell b) (int ?i0) (int ?j0) (\<lambda>_. ?new) = Inr g1"
    and a1: "applied n {?p0} (\<lambda>_. ?new) (cell b) g1" by blast
  from grid_sum_upd[OF u, of filled] get_cell_ok[OF bx(3) py]
  have "grid_sum filled g1 + filled (cell b ! ?i0 ! ?j0) = grid_sum filled (cell b) + filled ?new"
    by simp
  then have s1: "grid_sum filled g1 = grid_sum filled (cell b) + 1"
    using old0 vne by (simp add: filled_def cell_at_def)
  have ok1: "grid_ok n g1" using a1 by (simp add: applied_def)
  have "grid_sum filled (cell b') = grid_sum filled g1"
  proof (rule grid_sum_cong[OF ok1 bx'(3)])
    fix i j assume ij: "i < n" "j < n"
    have "g1 ! i ! j = (if (i, j) = ?p0 then ?new else cell b ! i ! j)"
      using a1 ij by (simp add: applied_def)
    then show "filled (cell b' ! i ! j) = filled (g1 ! i ! j)"
      using vals[OF ij] by (simp add: filled_def remove_from_possible_eq)
  qed
  with s1 cf cnt have cnt': "cells_filled b' = int (grid_sum filled (cell b'))" by simp
  have "board_inv bs b'" using sh' snd' dis' cnt' by (simp add: board_inv_def)
  moreover have "cell_at b' ?p0 = ?new" using at[OF p0] by simp
  ultimately show ?thesis using res cf gone val pos' by (intro exI[of _ b']) simp
qed

lemma find_first_cases:
  assumes "\<And>x. x \<in> set xs \<Longrightarrow> \<exists>y. body x = Inr y"
  shows "(find_first xs body = Inr None \<and> (\<forall>x\<in>set xs. body x = Inr None)) \<or>
         (\<exists>x\<in>set xs. \<exists>r. body x = Inr (Some r) \<and> find_first xs body = Inr (Some r))"
  using assms
proof (induction xs)
  case Nil
  then show ?case by simp
next
  case (Cons x xs)
  from Cons.prems[of x] obtain y where y: "body x = Inr y" by auto
  show ?case
  proof (cases y)
    case None
    with y Cons.IH Cons.prems show ?thesis by auto
  next
    case (Some r)
    with y show ?thesis by auto
  qed
qed

lemma scan_cases:
  assumes g: "grid_ok n g"
  shows "(scan (int n) g test mk = Inr None \<and> (\<forall>i<n. \<forall>j<n. \<not> test (g ! i ! j))) \<or>
         (\<exists>i<n. \<exists>j<n. test (g ! i ! j) \<and> scan (int n) g test mk = Inr (Some (mk (int i) (int j))))"
proof -
  let ?inner = "\<lambda>r c. case get_cell g r c of
           Inl e \<Rightarrow> Inl e
         | Inr x \<Rightarrow> Inr (if test x then Some (mk r c) else None)"
  let ?row = "\<lambda>r. find_first (py_range 0 (int n)) (?inner r)"
  have rng: "\<And>x. x \<in> set (py_range 0 (int n)) \<longleftrightarrow> 0 \<le> x \<and> x < int n"
    by (auto simp: set_py_range)
  have cellv: "\<And>r c. r \<in> set (py_range 0 (int n)) \<Longrightarrow> c \<in> set (py_range 0 (int n)) \<Longrightarrow>
      ?inner r c = Inr (if test (g ! nat r ! nat c) then Some (mk r c) else None)"
  proof -
    fix r c assume "r \<in> set (py_range 0 (int n))" "c \<in> set (py_range 0 (int n))"
    then have "py_index n r = Some (nat r)" "py_index n c = Some (nat c)"
      by (simp_all add: rng py_index_def)
    from get_cell_ok[OF g this] show "?inner r c = Inr (if test (g ! nat r ! nat c) then Some (mk r c) else None)"
      by simp
  qed
  have row: "\<And>r. r \<in> set (py_range 0 (int n)) \<Longrightarrow>
      (?row r = Inr None \<and> (\<forall>j<n. \<not> test (g ! nat r ! j))) \<or>
      (\<exists>j<n. test (g ! nat r ! j) \<and> ?row r = Inr (Some (mk r (int j))))"
  proof -
    fix r assume r: "r \<in> set (py_range 0 (int n))"
    have "(?row r = Inr None \<and> (\<forall>c\<in>set (py_range 0 (int n)). ?inner r c = Inr None)) \<or>
          (\<exists>c\<in>set (py_range 0 (int n)). \<exists>x. ?inner r c = Inr (Some x) \<and> ?row r = Inr (Some x))"
      by (rule find_first_cases) (simp add: cellv[OF r])
    then show "(?row r = Inr None \<and> (\<forall>j<n. \<not> test (g ! nat r ! j))) \<or>
      (\<exists>j<n. test (g ! nat r ! j) \<and> ?row r = Inr (Some (mk r (int j))))"
    proof
      assume a: "?row r = Inr None \<and> (\<forall>c\<in>set (py_range 0 (int n)). ?inner r c = Inr None)"
      have "\<forall>j<n. \<not> test (g ! nat r ! j)"
      proof (intro allI impI)
        fix j assume "j < n"
        then have j: "int j \<in> set (py_range 0 (int n))" by (simp add: rng)
        with a have "?inner r (int j) = Inr None" by blast
        with cellv[OF r j] show "\<not> test (g ! nat r ! j)" by (simp split: if_splits)
      qed
      with a show ?thesis by blast
    next
      assume "\<exists>c\<in>set (py_range 0 (int n)). \<exists>x. ?inner r c = Inr (Some x) \<and> ?row r = Inr (Some x)"
      then obtain c x where c: "c \<in> set (py_range 0 (int n))" and x: "?inner r c = Inr (Some x)"
        and f: "?row r = Inr (Some x)" by blast
      from x cellv[OF r c] have "test (g ! nat r ! nat c)" "x = mk r c" by (auto split: if_splits)
      moreover have "nat c < n" "int (nat c) = c" using c by (auto simp: rng)
      ultimately show ?thesis using f by metis
    qed
  qed
  have "(find_first (py_range 0 (int n)) ?row = Inr None \<and> (\<forall>r\<in>set (py_range 0 (int n)). ?row r = Inr None)) \<or>
        (\<exists>r\<in>set (py_range 0 (int n)). \<exists>x. ?row r = Inr (Some x) \<and> find_first (py_range 0 (int n)) ?row = Inr (Some x))"
    by (rule find_first_cases) (use row in blast)
  then show ?thesis
  proof
    assume a: "find_first (py_range 0 (int n)) ?row = Inr None \<and> (\<forall>r\<in>set (py_range 0 (int n)). ?row r = Inr None)"
    have "\<forall>i<n. \<forall>j<n. \<not> test (g ! i ! j)"
    proof (intro allI impI)
      fix i j assume ij: "i < n" "j < n"
      then have i: "int i \<in> set (py_range 0 (int n))" by (simp add: rng)
      with a have "?row (int i) = Inr None" by blast
      with row[OF i] ij show "\<not> test (g ! i ! j)" by auto
    qed
    with a show ?thesis by (simp add: scan_def)
  next
    assume "\<exists>r\<in>set (py_range 0 (int n)). \<exists>x. ?row r = Inr (Some x) \<and> find_first (py_range 0 (int n)) ?row = Inr (Some x)"
    then obtain r x where r: "r \<in> set (py_range 0 (int n))" and x: "?row r = Inr (Some x)"
      and f: "find_first (py_range 0 (int n)) ?row = Inr (Some x)" by blast
    from row[OF r] x obtain j where j: "j < n" "test (g ! nat r ! j)" "x = mk r (int j)" by auto
    moreover have "nat r < n" "int (nat r) = r" using r by (auto simp: rng)
    ultimately show ?thesis using f unfolding scan_def by metis
  qed
qed

lemma find_one_possible_scan:
  "find_one_possible b = scan (max_val b) (cell b) (\<lambda>c. length (possible c) = 1) Pair"
  unfolding find_one_possible_def scan_def by (rule refl)

lemma solved_scan:
  "solved b = (case scan (max_val b) (cell b) (\<lambda>x. cell_value x = 0) (\<lambda>r c. False) of
        Inl e \<Rightarrow> Inl e | Inr (Some t) \<Rightarrow> Inr t | Inr None \<Rightarrow> Inr True)"
  unfolding solved_def scan_def by (rule refl)

lemma reached_dead_end_scan:
  "reached_dead_end b =
     (case scan (max_val b) (cell b) (\<lambda>x. cell_value x = 0 \<and> length (possible x) = 0) (\<lambda>r c. True) of
        Inl e \<Rightarrow> Inl e | Inr (Some t) \<Rightarrow> Inr t | Inr None \<Rightarrow> Inr False)"
  unfolding reached_dead_end_def scan_def by (rule refl)

lemma shape_grid:
  assumes "shape bs b"
  shows "max_val b = int (nat (bs * bs))" "grid_ok (nat (bs * bs)) (cell b)"
  using assms by (simp_all add: shape_def)

lemma find_one_possible_shape:
  assumes "shape bs b" "n = nat (bs * bs)"
  shows "(find_one_possible b = Inr None \<and> (\<forall>i<n. \<forall>j<n. length (possible (cell b ! i ! j)) \<noteq> 1)) \<or>
         (\<exists>i<n. \<exists>j<n. length (possible (cell b ! i ! j)) = 1 \<and>
             find_one_possible b = Inr (Some (int i, int j)))"
  using scan_cases[OF shape_grid(2)[OF assms(1)], of "\<lambda>c. length (possible c) = 1" Pair]
  by (simp add: find_one_possible_scan shape_grid(1)[OF assms(1)] assms(2))

lemma solved_shape:
  assumes "shape bs b" "n = nat (bs * bs)"
  shows "solved b = Inr (\<forall>i<n. \<forall>j<n. cell_value (cell b ! i ! j) \<noteq> 0)"
  using scan_cases[OF shape_grid(2)[OF assms(1)], of "\<lambda>x. cell_value x = 0" "\<lambda>r c. False"]
  unfolding solved_scan shape_grid(1)[OF assms(1)] assms(2)
  by (elim disjE exE conjE; simp; blast)

lemma reached_dead_end_shape:
  assumes "shape bs b" "n = nat (bs * bs)"
  shows "reached_dead_end b =
     Inr (\<exists>i<n. \<exists>j<n. cell_value (cell b ! i ! j) = 0 \<and> possible (cell b ! i ! j) = [])"
  using scan_cases[OF shape_grid(2)[OF assms(1)],
      of "\<lambda>x. cell_value x = 0 \<and> length (possible x) = 0" "\<lambda>r c. True"]
  unfolding reached_dead_end_scan shape_grid(1)[OF assms(1)] assms(2)
  by (elim disjE exE conjE; simp; blast)

lemma length_py_range: "length (py_range 0 N) = nat N"
  by (simp add: py_range_def)

lemma grid_sum_zero:
  assumes "\<And>row c. row \<in> set g \<Longrightarrow> c \<in> set row \<Longrightarrow> m c = 0"
  shows "grid_sum m g = 0"
  using assms by (simp add: grid_sum_def)

lemma Sudoku_init_inv:
  assumes "0 \<le> bs"
  shows "board_inv bs (Sudoku_init bs)"
proof -
  let ?N = "bs * bs" and ?n = "nat (bs * bs)"
  let ?b = "Sudoku_init bs"
  have c: "cell ?b = map (\<lambda>row. map (\<lambda>col. Cell_init 0 ?N) (py_range 0 ?N)) (py_range 0 ?N)"
    and f: "box_size ?b = bs" "max_val ?b = ?N" "cells_filled ?b = 0"
    by (simp_all add: Sudoku_init_def power2_eq_square)
  have at: "\<And>i j. i < ?n \<Longrightarrow> j < ?n \<Longrightarrow> cell ?b ! i ! j = Cell_init 0 ?N"
    by (simp add: c length_py_range)
  have g: "grid_ok ?n (cell ?b)" by (simp add: grid_ok_def c length_py_range)
  have sh: "shape bs ?b"
    using assms g at cell_ok_init0 by (simp add: shape_def f all_cells_def)
  have at': "\<And>p. in_grid ?b p \<Longrightarrow> cell_at ?b p = Cell_init 0 ?N"
    by (simp add: in_grid_def f cell_at_def at)
  have "cands_sound ?b"
    by (auto simp: cands_sound_def at' Cell_init_def py_range_def)
  moreover have "peers_distinct ?b"
    by (auto simp: peers_distinct_def at' Cell_init_def)
  moreover have "grid_sum filled (cell ?b) = 0"
    by (rule grid_sum_zero) (auto simp: c filled_def Cell_init_def)
  ultimately show ?thesis using sh by (simp add: board_inv_def f)
qed

lemma set_cell_inv:
  assumes "board_inv bs b" "set_cell b v row col = Inr (ok, b')"
  shows "board_inv bs b' \<and> (if ok then cells_filled b' = cells_filled b + 1 else b' = b)"
proof -
  let ?n = "nat (bs * bs)"
  have sh: "shape bs b" using assms(1) by (simp add: board_inv_def)
  have rc: "- (bs * bs) \<le> row \<and> row < bs * bs \<and> - (bs * bs) \<le> col \<and> col < bs * bs"
    using set_cell_range[OF sh, of row col v] assms(2) by auto
  then have rc': "- int ?n \<le> row" "row < int ?n" "- int ?n \<le> col" "col < int ?n" by simp_all
  show ?thesis
  proof (cases "v \<in> set (possible (cell b ! pos ?n row ! pos ?n col))")
    case True
    from set_cell_inv_True[OF assms(1) refl rc' True] assms(2) show ?thesis by auto
  next
    case False
    from set_cell_False[OF sh refl rc' False] assms(1,2) show ?thesis by auto
  qed
qed

lemma fill_step:
  assumes inv: "board_inv bs b" and f: "find_one_possible b = Inr (Some (row, col))"
  shows "\<exists>c v b1. get_cell (cell b) row col = Inr c \<and> possible c = [v] \<and>
           set_cell b v row col = Inr (True, b1) \<and> board_inv bs b1 \<and>
           cells_filled b1 = cells_filled b + 1 \<and>
           fill_in_all_knowns b = fill_in_all_knowns b1"
proof -
  let ?n = "nat (bs * bs)"
  have sh: "shape bs b" using inv by (simp add: board_inv_def)
  from find_one_possible_shape[OF sh refl] f obtain i j where
    ij: "i < ?n" "j < ?n" "length (possible (cell b ! i ! j)) = 1" "row = int i" "col = int j"
    by auto
  let ?c = "cell b ! i ! j"
  from ij(3) obtain v where v: "possible ?c = [v]"
    by (cases "possible ?c") auto
  have rc: "- int ?n \<le> row" "row < int ?n" "- int ?n \<le> col" "col < int ?n"
    using ij by simp_all
  have p: "pos ?n row = i" "pos ?n col = j" using ij by (simp_all add: pos_nat)
  have get: "get_cell (cell b) row col = Inr ?c"
    using get_cell_ok[OF shape_grid(2)[OF sh], of row i col j] ij by (simp add: py_index_nat)
  from set_cell_inv_True[OF inv refl rc, of v] v p obtain b1 where
    b1: "set_cell b v row col = Inr (True, b1)" "board_inv bs b1" "cells_filled b1 = cells_filled b + 1"
    by auto
  have "fill_in_all_knowns b = fill_in_all_knowns b1"
    using f get v b1(1) by (simp add: fill_in_all_knowns.simps[of b])
  with get v b1 show ?thesis by blast
qed

lemma fill_in_all_knowns_inv:
  assumes "board_inv bs b"
  shows "\<exists>b'. fill_in_all_knowns b = Inr b' \<and> board_inv bs b' \<and> cells_filled b \<le> cells_filled b'"
  using assms
proof (induction b rule: fill_in_all_knowns.induct)
  case (1 b)
  have sh: "shape bs b" using "1.prems" by (simp add: board_inv_def)
  from find_one_possible_shape[OF sh refl]
  consider "find_one_possible b = Inr None"
    | row col where "find_one_possible b = Inr (Some (row, col))" by blast
  then show ?case
  proof cases
    case 1
    then have "fill_in_all_knowns b = Inr b" by (simp add: fill_in_all_knowns.simps[of b])
    with "1.prems" show ?thesis by simp
  next
    case 2
    from fill_step[OF "1.prems" 2] obtain c v b1 where
      s: "get_cell (cell b) row col = Inr c" "possible c = [v]"
         "set_cell b v row col = Inr (True, b1)" "board_inv bs b1"
         "cells_filled b1 = cells_filled b + 1" "fill_in_all_knowns b = fill_in_all_knowns b1"
      by blast
    from "1.IH"[OF 2 refl refl s(1) s(2) s(3) refl s(4)] s(5,6) show ?thesis by auto
  qed
qed

lemma trans_board_less: "trans board_less"
  unfolding board_less_def by (intro trans_inv_image trans_lex_prod trans_less_than)

lemma fill_in_all_knowns_le:
  "fill_in_all_knowns b = Inr b' \<Longrightarrow> b' = b \<or> (b', b) \<in> board_less"
proof (induction b rule: fill_in_all_knowns.induct)
  case (1 b)
  show ?case
  proof (cases "find_one_possible b")
    case (Inl e)
    with "1.prems" show ?thesis by (simp add: fill_in_all_knowns.simps[of b])
  next
    case (Inr r)
    show ?thesis
    proof (cases r)
      case None
      with Inr "1.prems" show ?thesis by (simp add: fill_in_all_knowns.simps[of b])
    next
      case (Some rc)
      obtain row col where rc: "rc = (row, col)" by (cases rc)
      from "1.prems" Inr Some rc obtain c v rest ok b1 where
        c: "get_cell (cell b) row col = Inr c" and p: "possible c = v # rest"
        and s: "set_cell b v row col = Inr (ok, b1)" and f: "fill_in_all_knowns b1 = Inr b'"
        by (simp add: fill_in_all_knowns.simps[of b] split: sum.splits list.splits prod.splits)
      have "(b1, b) \<in> board_less" using set_cell_less[OF s c] p by simp
      moreover from "1.IH"[OF Inr Some rc[symmetric] c p s refl f]
      have "b' = b1 \<or> (b', b1) \<in> board_less" .
      ultimately show ?thesis using transD[OF trans_board_less] by blast
    qed
  qed
qed

lemma for_each_pres:
  assumes "\<And>x s. x \<in> set xs \<Longrightarrow> I s \<Longrightarrow> \<exists>s'. body x s = Inr s' \<and> I s'" and "I s"
  shows "\<exists>s'. for_each xs body s = Inr s' \<and> I s'"
  using assms
proof (induction xs arbitrary: s)
  case Nil
  then show ?case by simp
next
  case (Cons x xs)
  from Cons.prems(1)[of x s] Cons.prems(2) obtain s1 where s1: "body x s = Inr s1" "I s1" by auto
  from Cons.IH[of s1] Cons.prems(1) s1(2) obtain s' where "for_each xs body s1 = Inr s'" "I s'"
    by auto
  with s1(1) show ?case by simp
qed

lemma for_each_reach:
  assumes pres: "\<And>x s. x \<in> set xs \<Longrightarrow> I s \<Longrightarrow> \<exists>s'. body x s = Inr s' \<and> I s' \<and> (F s \<longrightarrow> F s')"
    and hit: "\<And>s. I s \<Longrightarrow> \<exists>s'. body z s = Inr s' \<and> I s' \<and> F s'"
    and z: "z \<in> set xs" and s: "I s"
  shows "\<exists>s'. for_each xs body s = Inr s' \<and> I s' \<and> F s'"
  using pres z s
proof (induction xs arbitrary: s)
  case Nil
  then show ?case by simp
next
  case (Cons x xs)
  show ?case
  proof (cases "z = x")
    case True
    from hit[OF Cons.prems(3)] True obtain s1 where s1: "body x s = Inr s1" "I s1" "F s1" by auto
    have "\<exists>s'. for_each xs body s1 = Inr s' \<and> (I s' \<and> F s')"
    proof (rule for_each_pres[where I = "\<lambda>s. I s \<and> F s"])
      fix y t assume "y \<in> set xs" "I t \<and> F t"
      with Cons.prems(1)[of y t] show "\<exists>s'. body y t = Inr s' \<and> I s' \<and> F s'" by auto
    next
      show "I s1 \<and> F s1" using s1 by simp
    qed
    with s1(1) show ?thesis by simp
  next
    case False
    with Cons.prems(2) have zin: "z \<in> set xs" by simp
    from Cons.prems(1)[of x s] Cons.prems(3) obtain s1 where s1: "body x s = Inr s1" "I s1" by auto
    from Cons.IH[OF _ zin s1(2)] Cons.prems(1) obtain s' where
      "for_each xs body s1 = Inr s'" "I s'" "F s'" by auto
    with s1(1) show ?thesis by simp
  qed
qed

lemma cands_length:
  assumes "cell_ok N c" "0 \<le> N"
  shows "int (length (possible c)) \<le> N"
proof -
  have "length (possible c) = card (set (possible c))"
    using assms(1) by (simp add: cell_ok_def distinct_card)
  also have "\<dots> \<le> card {1..N}"
    using assms(1) by (intro card_mono) (simp_all add: cell_ok_def)
  finally show ?thesis using assms(2) by simp
qed

lemma find_lowest_possibles_shape:
  assumes sh: "shape bs b" and n: "n = nat (bs * bs)"
    and ex: "i0 < n" "j0 < n" "possible (cell b ! i0 ! j0) \<noteq> []"
  shows "\<exists>r<n. \<exists>c<n. find_lowest_possibles b = Inr (int r, int c) \<and> possible (cell b ! r ! c) \<noteq> []"
proof -
  let ?N = "bs * bs"
  have mv: "max_val b = int n" and g: "grid_ok n (cell b)"
    and okc: "all_cells n (cell_ok ?N) (cell b)"
    using sh n by (simp_all add: shape_def)
  have N: "?N = int n" "0 \<le> ?N" using n by simp_all
  define I :: "int \<times> int \<times> int \<Rightarrow> bool" where
    "I = (\<lambda>(lr, lc, lp). lp \<le> int n \<longrightarrow>
           0 \<le> lr \<and> lr < int n \<and> 0 \<le> lc \<and> lc < int n \<and> possible (cell b ! nat lr ! nat lc) \<noteq> [])"
  define F :: "int \<times> int \<times> int \<Rightarrow> bool" where "F = (\<lambda>(lr, lc, lp). lp \<le> int n)"
  define step :: "int \<Rightarrow> int \<Rightarrow> int \<times> int \<times> int \<Rightarrow> py_error + int \<times> int \<times> int" where
    "step = (\<lambda>row col (low_row, low_col, low_poss).
               case get_cell (cell b) row col of
                 Inl e \<Rightarrow> Inl e
               | Inr c \<Rightarrow>
                   let len_possible = int (length (possible c))
                   in if len_possible > 0 \<and> len_possible < low_poss
                      then Inr (row, col, len_possible)
                      else Inr (low_row, low_col, low_poss))"
  have rng: "\<And>x. x \<in> set (py_range 0 (int n)) \<longleftrightarrow> 0 \<le> x \<and> x < int n"
    by (auto simp: set_py_range)
  have stepv: "\<And>r c st. r \<in> set (py_range 0 (int n)) \<Longrightarrow> c \<in> set (py_range 0 (int n)) \<Longrightarrow>
      step r c st = (let l = int (length (possible (cell b ! nat r ! nat c)))
                     in if l > 0 \<and> l < snd (snd st) then Inr (r, c, l) else Inr st)"
  proof -
    fix r c and st :: "int \<times> int \<times> int"
    assume "r \<in> set (py_range 0 (int n))" "c \<in> set (py_range 0 (int n))"
    then have "py_index n r = Some (nat r)" "py_index n c = Some (nat c)"
      by (simp_all add: rng py_index_def)
    from get_cell_ok[OF g this]
    show "step r c st = (let l = int (length (possible (cell b ! nat r ! nat c)))
                     in if l > 0 \<and> l < snd (snd st) then Inr (r, c, l) else Inr st)"
      by (cases st) (simp add: step_def Let_def)
  qed
  have len: "\<And>r c. r \<in> set (py_range 0 (int n)) \<Longrightarrow> c \<in> set (py_range 0 (int n)) \<Longrightarrow>
      int (length (possible (cell b ! nat r ! nat c))) \<le> int n"
  proof -
    fix r c assume "r \<in> set (py_range 0 (int n))" "c \<in> set (py_range 0 (int n))"
    then have "nat r < n" "nat c < n" by (auto simp: rng)
    then have "cell_ok ?N (cell b ! nat r ! nat c)"
      using okc by (simp add: all_cells_def)
    from cands_length[OF this N(2)] show "int (length (possible (cell b ! nat r ! nat c))) \<le> int n"
      by (simp add: N(1))
  qed
  have pres: "\<And>r c st. r \<in> set (py_range 0 (int n)) \<Longrightarrow> c \<in> set (py_range 0 (int n)) \<Longrightarrow> I st \<Longrightarrow>
      \<exists>st'. step r c st = Inr st' \<and> I st' \<and> (F st \<longrightarrow> F st')"
  proof -
    fix r c and st :: "int \<times> int \<times> int"
    assume r: "r \<in> set (py_range 0 (int n))" and c: "c \<in> set (py_range 0 (int n))" and "I st"
    then show "\<exists>st'. step r c st = Inr st' \<and> I st' \<and> (F st \<longrightarrow> F st')"
      using len[OF r c] by (cases st) (auto simp: stepv[OF r c] Let_def I_def F_def rng)
  qed
  have hit: "\<And>st. I st \<Longrightarrow> \<exists>st'. step (int i0) (int j0) st = Inr st' \<and> I st' \<and> F st'"
  proof -
    fix st :: "int \<times> int \<times> int" assume "I st"
    have r: "int i0 \<in> set (py_range 0 (int n))" and c: "int j0 \<in> set (py_range 0 (int n))"
      using ex by (simp_all add: rng)
    from \<open>I st\<close> show "\<exists>st'. step (int i0) (int j0) st = Inr st' \<and> I st' \<and> F st'"
      using len[OF r c] ex by (cases st) (auto simp: stepv[OF r c] Let_def I_def F_def rng)
  qed
  let ?rows = "py_range 0 (int n)"
  have "\<exists>st'. for_each ?rows (\<lambda>row. for_each ?rows (step row)) (- 1, - 1, int n + 1) = Inr st' \<and> I st' \<and> F st'"
  proof (rule for_each_reach[where z = "int i0"])
    fix x st assume x: "x \<in> set ?rows" and st: "I st"
    have "\<exists>s'. for_each ?rows (step x) st = Inr s' \<and> (I s' \<and> (F st \<longrightarrow> F s'))"
    proof (rule for_each_pres[where I = "\<lambda>s. I s \<and> (F st \<longrightarrow> F s)"])
      fix y t assume "y \<in> set ?rows" "I t \<and> (F st \<longrightarrow> F t)"
      with pres[OF x, of y t] show "\<exists>s'. step x y t = Inr s' \<and> I s' \<and> (F st \<longrightarrow> F s')" by auto
    next
      show "I st \<and> (F st \<longrightarrow> F st)" using st by simp
    qed
    then show "\<exists>s'. for_each ?rows (step x) st = Inr s' \<and> I s' \<and> (F st \<longrightarrow> F s')" by simp
  next
    fix st assume st: "I st"
    show "\<exists>s'. for_each ?rows (step (int i0)) st = Inr s' \<and> I s' \<and> F s'"
    proof (rule for_each_reach[where z = "int j0"])
      fix y t assume "y \<in> set ?rows" "I t"
      then show "\<exists>s'. step (int i0) y t = Inr s' \<and> I s' \<and> (F t \<longrightarrow> F s')"
        using pres[of "int i0" y t] ex(1) by (simp add: rng)
    next
      fix t assume "I t" then show "\<exists>s'. step (int i0) (int j0) t = Inr s' \<and> I s' \<and> F s'" by (rule hit)
    next
      show "int j0 \<in> set ?rows" using ex(2) by (simp add: rng)
    next
      show "I st" by (rule st)
    qed
  next
    show "int i0 \<in> set ?rows" using ex(1) by (simp add: rng)
  next
    show "I (- 1, - 1, int n + 1)" by (simp add: I_def)
  qed
  then obtain lr lc lp where
    fe: "for_each ?rows (\<lambda>row. for_each ?rows (step row)) (- 1, - 1, int n + 1) = Inr (lr, lc, lp)"
    and "I (lr, lc, lp)" "F (lr, lc, lp)" by (metis prod_cases3)
  then have v: "0 \<le> lr" "lr < int n" "0 \<le> lc" "lc < int n" "possible (cell b ! nat lr ! nat lc) \<noteq> []"
    by (simp_all add: I_def F_def)
  have "find_lowest_possibles b = Inr (lr, lc)"
    using fe unfolding find_lowest_possibles_def mv step_def by simp
  moreover have "nat lr < n" "nat lc < n" "int (nat lr) = lr" "int (nat lc) = lc"
    using v by simp_all
  ultimately show ?thesis using v(5) by metis
qed

section \<open>The search\<close>

lemma fork_puzzles_Cons:
  "fork_puzzles h ps p row col (v # vs) =
     (case set_cell (h ! p) v row col of
        Inl e \<Rightarrow> Inl e
      | Inr (ok, b') \<Rightarrow> fork_puzzles (h @ [b']) (ps @ [length h]) p row col vs)"
  if "p < length h"
  using that by (simp add: fork_puzzles_def deepcopy_def nth_append split: sum.splits prod.splits)

lemma upt_push: "xs @ n # [Suc n..<Suc (n + k)] = xs @ [n..<Suc (n + k)]"
  by (simp add: upt_conv_Cons del: upt_Suc)

lemma fork_puzzles_values:
  "p < length h \<Longrightarrow>
   fork_puzzles h ps p row col vals =
     (case fork_values (h ! p) row col vals of
        Inl e \<Rightarrow> Inl e
      | Inr kids \<Rightarrow> Inr (h @ kids, ps @ [length h..<length h + length kids]))"
proof (induction vals arbitrary: h ps)
  case Nil
  then show ?case by (simp add: fork_puzzles_def)
next
  case (Cons v vs)
  show ?case
  proof (cases "set_cell (h ! p) v row col")
    case (Inl e)
    then show ?thesis using Cons.prems by (simp add: fork_puzzles_Cons)
  next
    case (Inr r)
    obtain ok b' where r: "r = (ok, b')" by (cases r)
    have p': "p < length (h @ [b'])" "(h @ [b']) ! p = h ! p"
      using Cons.prems by (simp_all add: nth_append)
    show ?thesis
      using Cons.prems Inr r Cons.IH[OF p'(1), of "ps @ [length h]"]
      by (simp add: fork_puzzles_Cons p'(2) upt_push del: upt_Suc split: sum.splits)
  qed
qed

lemma solve_loop_step:
  assumes "p < length h"
  shows "solve_loop h (ps @ [p]) pz =
     (case branch (h ! p) of
        Inl e \<Rightarrow> Some (Inl e)
      | Inr (Found b) \<Rightarrow> solve_loop (h[p := b]) [] (Some p)
      | Inr (Dead b) \<Rightarrow> solve_loop (h[p := b]) ps (if ps = [] then None else Some p)
      | Inr (Fork b kids) \<Rightarrow>
          solve_loop (h[p := b] @ kids) (ps @ [length h..<length h + length kids]) (Some p))"
  using assms
  by (subst solve_loop.simps)
     (simp add: branch_def Let_def fork_puzzles_values split: sum.splits prod.splits)

lemma wf_stack_less: "wf stack_less"
  unfolding stack_less_def board_less_def
  by (intro wf_inv_image wf_mult wf_lex_prod wf_less_than)

lemma board_less_trans: "(a, b) \<in> board_less \<Longrightarrow> (b, c) \<in> board_less \<Longrightarrow> (a, c) \<in> board_less"
  using transD[OF trans_board_less] by blast

lemma fork_values_less:
  assumes "get_cell (cell b) row col = Inr c" "set vals \<subseteq> set (possible c)"
    and "fork_values b row col vals = Inr kids"
  shows "\<forall>k\<in>set kids. (k, b) \<in> board_less"
  using assms(2,3)
proof (induction vals arbitrary: kids)
  case Nil
  then show ?case by simp
next
  case (Cons v vs)
  from Cons.prems(2) obtain ok b' ks where
    s: "set_cell b v row col = Inr (ok, b')" and f: "fork_values b row col vs = Inr ks"
    and k: "kids = b' # ks"
    by (auto split: sum.splits prod.splits)
  have "(b', b) \<in> board_less" using set_cell_less[OF s assms(1)] Cons.prems(1) by simp
  moreover have "\<forall>k\<in>set ks. (k, b) \<in> board_less" using Cons.IH[OF _ f] Cons.prems(1) by simp
  ultimately show ?case by (simp add: k)
qed

lemma branch_less:
  assumes "branch x = Inr out"
  shows "case out of
           Found b \<Rightarrow> b = x \<or> (b, x) \<in> board_less
         | Dead b \<Rightarrow> b = x \<or> (b, x) \<in> board_less
         | Fork b kids \<Rightarrow> (b = x \<or> (b, x) \<in> board_less) \<and> (\<forall>k\<in>set kids. (k, b) \<in> board_less)"
proof -
  from assms obtain b where b: "fill_in_all_knowns x = Inr b"
    by (auto simp: branch_def split: sum.splits)
  have le: "b = x \<or> (b, x) \<in> board_less" using fill_in_all_knowns_le[OF b] .
  show ?thesis
  proof (cases out)
    case (Found b')
    with assms b have "b' = b"
      by (auto simp: branch_def split: sum.splits if_splits prod.splits)
    with le Found show ?thesis by simp
  next
    case (Dead b')
    with assms b have "b' = b"
      by (auto simp: branch_def split: sum.splits if_splits prod.splits)
    with le Dead show ?thesis by simp
  next
    case (Fork b' kids)
    with assms b obtain row col c where "b' = b" "get_cell (cell b) row col = Inr c"
      "fork_values b row col (possible c) = Inr kids"
      by (auto simp: branch_def split: sum.splits if_splits prod.splits)
    with fork_values_less[of b row col c "possible c" kids] le Fork show ?thesis by simp
  qed
qed

lemma fork_values_inv:
  assumes inv: "board_inv bs b" and n: "n = nat (bs * bs)" and rc: "r < n" "c < n"
    and sub: "set vals \<subseteq> set (possible (cell b ! r ! c))"
  shows "\<exists>kids. fork_values b (int r) (int c) vals = Inr kids \<and> length kids = length vals \<and>
           (\<forall>k<length vals. set_cell b (vals ! k) (int r) (int c) = Inr (True, kids ! k)) \<and>
           (\<forall>k\<in>set kids. board_inv bs k)"
  using sub
proof (induction vals)
  case Nil
  then show ?case by simp
next
  case (Cons v vs)
  have rc': "- int n \<le> int r" "int r < int n" "- int n \<le> int c" "int c < int n"
    using rc by simp_all
  have p: "pos n (int r) = r" "pos n (int c) = c" using rc by (simp_all add: pos_nat)
  from set_cell_inv_True[OF inv n rc', of v] Cons.prems p obtain b' where
    b': "set_cell b v (int r) (int c) = Inr (True, b')" "board_inv bs b'" by auto
  from Cons.IH Cons.prems obtain ks where
    ks: "fork_values b (int r) (int c) vs = Inr ks" "length ks = length vs"
      "\<forall>k<length vs. set_cell b (vs ! k) (int r) (int c) = Inr (True, ks ! k)"
      "\<forall>k\<in>set ks. board_inv bs k" by auto
  have "\<forall>k<length (v # vs). set_cell b ((v # vs) ! k) (int r) (int c) = Inr (True, (b' # ks) ! k)"
    using b'(1) ks(3) by (auto simp: nth_Cons split: nat.splits)
  with b' ks show ?case by (intro exI[of _ "b' # ks"]) simp
qed

lemma all_filled_iff:
  assumes "shape bs b" "n = nat (bs * bs)"
  shows "all_filled b \<longleftrightarrow> (\<forall>i<n. \<forall>j<n. cell_value (cell b ! i ! j) \<noteq> 0)"
  using assms by (auto simp: all_filled_def in_grid_def cell_at_def shape_def)

lemma branch_inv:
  assumes inv: "board_inv bs x"
  shows "\<exists>out. branch x = Inr out \<and>
           (case out of
              Found b \<Rightarrow> board_inv bs b \<and> all_filled b
            | Dead b \<Rightarrow> board_inv bs b
            | Fork b kids \<Rightarrow> board_inv bs b \<and> kids \<noteq> [] \<and> (\<forall>k\<in>set kids. board_inv bs k))"
proof -
  let ?n = "nat (bs * bs)"
  from fill_in_all_knowns_inv[OF inv] obtain b where
    b: "fill_in_all_knowns x = Inr b" "board_inv bs b" by blast
  have sh: "shape bs b" using b(2) by (simp add: board_inv_def)
  note so = solved_shape[OF sh refl] and de = reached_dead_end_shape[OF sh refl]
  show ?thesis
  proof (cases "\<forall>i<?n. \<forall>j<?n. cell_value (cell b ! i ! j) \<noteq> 0")
    case True
    then have "branch x = Inr (Found b)" using b(1) so by (simp add: branch_def)
    moreover have "all_filled b" using True all_filled_iff[OF sh refl] by simp
    ultimately show ?thesis using b(2) by simp
  next
    case False
    show ?thesis
    proof (cases "\<exists>i<?n. \<exists>j<?n. cell_value (cell b ! i ! j) = 0 \<and> possible (cell b ! i ! j) = []")
      case True
      then have "branch x = Inr (Dead b)" using b(1) so de False by (simp add: branch_def)
      then show ?thesis using b(2) by simp
    next
      case nd: False
      from False obtain i0 j0 where ij: "i0 < ?n" "j0 < ?n" "cell_value (cell b ! i0 ! j0) = 0"
        by blast
      with nd have ne: "possible (cell b ! i0 ! j0) \<noteq> []" by blast
      from find_lowest_possibles_shape[OF sh refl ij(1,2) ne] obtain r c where
        rc: "r < ?n" "c < ?n" "find_lowest_possibles b = Inr (int r, int c)"
          "possible (cell b ! r ! c) \<noteq> []" by blast
      have get: "get_cell (cell b) (int r) (int c) = Inr (cell b ! r ! c)"
        using get_cell_ok[OF shape_grid(2)[OF sh], of "int r" r "int c" c] rc(1,2)
        by (simp add: py_index_nat)
      from fork_values_inv[OF b(2) refl rc(1,2), of "possible (cell b ! r ! c)"] obtain kids where
        kids: "fork_values b (int r) (int c) (possible (cell b ! r ! c)) = Inr kids"
          "length kids = length (possible (cell b ! r ! c))" "\<forall>k\<in>set kids. board_inv bs k"
        by auto
      have "branch x = Inr (Fork b kids)"
        using b(1) so de False nd rc(3) get kids(1) by (simp add: branch_def)
      moreover have "kids \<noteq> []" using kids(2) rc(4) by auto
      ultimately show ?thesis using b(2) kids(3) by simp
    qed
  qed
qed

lemma map_nth_fresh: "map ((!) (xs @ ys)) [length xs..<length xs + length ys] = ys"
  by (rule nth_equalityI) (simp_all add: nth_append)

lemma map_nth_old:
  assumes "\<forall>a\<in>set ps. a < length h \<and> a \<noteq> p"
  shows "map ((!) (h[p := b] @ ys)) ps = map ((!) h) ps"
  using assms by (auto simp: nth_append)

lemma stack_less_pop:
  assumes "p \<notin> set ps" "\<forall>a\<in>set ps. a < length h"
    and "\<forall>k\<in>set kids. (k, h ! p) \<in> board_less"
  shows "((h[p := b] @ kids, ps @ [length h..<length h + length kids]), (h, ps @ [p])) \<in> stack_less"
proof -
  have old: "map ((!) (h[p := b] @ kids)) ps = map ((!) h) ps"
    using assms(1,2) by (intro map_nth_old) auto
  have new: "map ((!) (h[p := b] @ kids)) [length h..<length h + length kids] = kids"
    using map_nth_fresh[of "h[p := b]" kids] by simp
  have e1: "mset (map ((!) (h[p := b] @ kids)) (ps @ [length h..<length h + length kids]))
      = mset (map ((!) h) ps) + mset kids"
    by (simp only: map_append mset_append old new)
  have e2: "mset (map ((!) h) (ps @ [p])) = mset (map ((!) h) ps) + {#h ! p#}" by simp
  have "(mset (map ((!) h) ps) + mset kids, mset (map ((!) h) ps) + {#h ! p#}) \<in> mult board_less"
    by (rule one_step_implies_mult) (use assms(3) in auto)
  then show ?thesis unfolding stack_less_def in_inv_image prod.case e1 e2 .
qed

lemma stack_less_clear: "((h', []), (h, ps @ [p])) \<in> stack_less"
proof -
  have "({#} + {#}, {#} + mset (map ((!) h) (ps @ [p]))) \<in> mult board_less"
    by (rule one_step_implies_mult) auto
  then show ?thesis by (simp add: stack_less_def)
qed

lemma solve_loop_main:
  assumes "valid_stack h ps" "\<forall>a. pz = Some a \<longrightarrow> a < length h"
  shows "\<exists>r. solve_loop h ps pz = Some r \<and> frame h ps r \<and> (stack_inv bs h ps pz \<longrightarrow> good bs r)"
  using assms
proof (induction "(h, ps)" arbitrary: h ps pz rule: wf_induct_rule[OF wf_stack_less])
  case less: 1
  show ?case
  proof (cases ps rule: rev_cases)
    case Nil
    have "solve_loop h [] pz = Some (Inr (pz, h))" by (subst solve_loop.simps) simp
    then show ?thesis using less.prems(2) Nil by (simp add: frame_def stack_inv_def good_def)
  next
    case (snoc ps1 p)
    have p: "p < length h" "p \<notin> set ps1" and v1: "distinct ps1" "\<forall>a\<in>set ps1. a < length h"
      using less.prems(1) snoc by (auto simp: valid_stack_def)
    note step = solve_loop_step[OF p(1), of ps1 pz]
    have invp: "stack_inv bs h ps pz \<Longrightarrow> board_inv bs (h ! p)"
      using snoc by (simp add: stack_inv_def)
    have inv1: "stack_inv bs h ps pz \<Longrightarrow> \<forall>a\<in>set ps1. board_inv bs (h ! a)"
      using snoc by (simp add: stack_inv_def)
    show ?thesis
    proof (cases "branch (h ! p)")
      case (Inl e)
      then have "solve_loop h ps pz = Some (Inl e)" using step snoc by simp
      moreover have "\<not> stack_inv bs h ps pz" using branch_inv[of bs "h ! p"] invp Inl by auto
      ultimately show ?thesis by (simp add: frame_def)
    next
      case (Inr out)
      note bl = branch_less[OF Inr]
      show ?thesis
      proof (cases out)
        case (Found b)
        let ?h1 = "h[p := b]"
        have eq: "solve_loop h ps pz = solve_loop ?h1 [] (Some p)"
          using step snoc Inr Found by simp
        have "((?h1, []), (h, ps)) \<in> stack_less" unfolding snoc by (rule stack_less_clear)
        from less.hyps[OF this, of "Some p"] p(1) obtain r where
          r: "solve_loop ?h1 [] (Some p) = Some r" "frame ?h1 [] r"
             "stack_inv bs ?h1 [] (Some p) \<longrightarrow> good bs r"
          by (auto simp: valid_stack_def)
        have "frame h ps r"
          using r(2) p(1) snoc by (auto simp: frame_def split: sum.splits)
        moreover have "stack_inv bs h ps pz \<longrightarrow> good bs r"
        proof
          assume "stack_inv bs h ps pz"
          from branch_inv[OF invp[OF this]] Inr Found have "board_inv bs b \<and> all_filled b" by auto
          then have "stack_inv bs ?h1 [] (Some p)" using p(1) by (simp add: stack_inv_def)
          with r(3) show "good bs r" by simp
        qed
        ultimately show ?thesis using eq r(1) by simp
      next
        case (Dead b)
        let ?h1 = "h[p := b]"
        let ?pz = "if ps1 = [] then None else Some p"
        have eq: "solve_loop h ps pz = solve_loop ?h1 ps1 ?pz"
          using step snoc Inr Dead by simp
        have "((?h1 @ [], ps1 @ [length h..<length h + length ([]::Sudoku list)]), (h, ps1 @ [p])) \<in> stack_less"
          by (rule stack_less_pop) (use p v1 in auto)
        then have "((?h1, ps1), (h, ps)) \<in> stack_less" by (simp add: snoc)
        moreover have "valid_stack ?h1 ps1" using v1 by (simp add: valid_stack_def)
        moreover have "\<forall>a. ?pz = Some a \<longrightarrow> a < length ?h1" using p(1) by simp
        ultimately obtain r where
          r: "solve_loop ?h1 ps1 ?pz = Some r" "frame ?h1 ps1 r"
             "stack_inv bs ?h1 ps1 ?pz \<longrightarrow> good bs r"
          using less.hyps[of ?h1 ps1 ?pz] by blast
        have "frame h ps r"
          using r(2) p(1) snoc by (auto simp: frame_def split: sum.splits)
        moreover have "stack_inv bs h ps pz \<longrightarrow> good bs r"
        proof
          assume si: "stack_inv bs h ps pz"
          have "\<forall>a\<in>set ps1. ?h1 ! a = h ! a"
            by (intro ballI nth_list_update_neq) (use p(2) in auto)
          with inv1[OF si] have "stack_inv bs ?h1 ps1 ?pz" by (simp add: stack_inv_def)
          with r(3) show "good bs r" by simp
        qed
        ultimately show ?thesis using eq r(1) by simp
      next
        case (Fork b kids)
        let ?h2 = "h[p := b] @ kids"
        let ?ps2 = "ps1 @ [length h..<length h + length kids]"
        have eq: "solve_loop h ps pz = solve_loop ?h2 ?ps2 (Some p)"
          using step snoc Inr Fork by simp
        from bl Fork have kl: "\<forall>k\<in>set kids. (k, h ! p) \<in> board_less"
          using board_less_trans by auto
        have "((?h2, ?ps2), (h, ps1 @ [p])) \<in> stack_less"
          by (rule stack_less_pop) (use p v1 kl in auto)
        then have sl: "((?h2, ?ps2), (h, ps)) \<in> stack_less" by (simp add: snoc)
        have vs: "valid_stack ?h2 ?ps2" using v1 by (auto simp: valid_stack_def)
        from less.hyps[OF sl vs, of "Some p"] p(1) obtain r where
          r: "solve_loop ?h2 ?ps2 (Some p) = Some r" "frame ?h2 ?ps2 r"
             "stack_inv bs ?h2 ?ps2 (Some p) \<longrightarrow> good bs r"
          by auto
        have "frame h ps r"
          using r(2) p(1) snoc by (auto simp: frame_def nth_append split: sum.splits)
        moreover have "stack_inv bs h ps pz \<longrightarrow> good bs r"
        proof
          assume si: "stack_inv bs h ps pz"
          from branch_inv[OF invp[OF si]] Inr Fork
          have k: "kids \<noteq> []" "\<forall>k\<in>set kids. board_inv bs k" by auto
          have o: "\<forall>a\<in>set ps1. ?h2 ! a = h ! a"
          proof
            fix a assume "a \<in> set ps1"
            then have "a < length h" "p \<noteq> a" using p(2) v1(2) by auto
            then show "?h2 ! a = h ! a" by (simp add: nth_append)
          qed
          have f: "\<forall>a\<in>set [length h..<length h + length kids]. ?h2 ! a \<in> set kids"
            by (auto simp: nth_append)
          have "stack_inv bs ?h2 ?ps2 (Some p)"
            using inv1[OF si] o f k by (auto simp: stack_inv_def)
          with r(3) show "good bs r" by simp
        qed
        ultimately show ?thesis using eq r(1) by simp
      qed
    qed
  qed
qed

lemma solve_main:
  assumes "self < length h"
  shows "\<exists>r. solve h self = Some r \<and>
           (\<forall>res h'. r = Inr (res, h') \<longrightarrow>
              length h < length h' \<and> (\<forall>a<length h. h' ! a = h ! a) \<and>
              (\<forall>a. res = Some a \<longrightarrow> a < length h')) \<and>
           (board_inv bs (h ! self) \<longrightarrow> good bs r)"
proof -
  let ?h0 = "h @ [h ! self]"
  have eq: "solve h self = solve_loop ?h0 [length h] None"
    by (simp add: solve_def deepcopy_def)
  have "valid_stack ?h0 [length h]" by (simp add: valid_stack_def)
  from solve_loop_main[OF this, of None bs] obtain r where
    r: "solve_loop ?h0 [length h] None = Some r" "frame ?h0 [length h] r"
       "stack_inv bs ?h0 [length h] None \<longrightarrow> good bs r" by auto
  have "\<forall>res h'. r = Inr (res, h') \<longrightarrow>
              length h < length h' \<and> (\<forall>a<length h. h' ! a = h ! a) \<and>
              (\<forall>a. res = Some a \<longrightarrow> a < length h')"
    using r(2) by (auto simp: frame_def nth_append)
  moreover have "board_inv bs (h ! self) \<longrightarrow> stack_inv bs ?h0 [length h] None"
    by (simp add: stack_inv_def)
  ultimately show ?thesis using eq r(1,3) by auto
qed

lemma reachable_inv:
  assumes "0 \<le> bs" "reachable bs b"
  shows "board_inv bs b"
  using assms(2)
proof (induction rule: reachable.induct)
  case fresh
  then show ?case by (rule Sudoku_init_inv[OF assms(1)])
next
  case (assign b v row col ok b')
  then show ?case using set_cell_inv by blast
next
  case (propagate b b')
  then show ?case using fill_in_all_knowns_inv by fastforce
next
  case (search h self a h')
  from solve_main[OF search.hyps(2), of bs] search.hyps(3) search.IH
  show ?case by (auto simp: good_def)
qed

lemma set_cells_reachable:
  "reachable bs b \<Longrightarrow> set_cells b cs = Inr b' \<Longrightarrow> reachable bs b'"
proof (induction b cs rule: set_cells.induct)
  case (1 b)
  then show ?case by simp
next
  case (2 b v row col cs)
  from "2.prems"(2) obtain ok b1 where s: "set_cell b v row col = Inr (ok, b1)"
    and r: "set_cells b1 cs = Inr b'" by (auto split: sum.splits prod.splits)
  from reachable.assign[OF "2.prems"(1) s] have "reachable bs b1" .
  from "2.IH"[OF s refl this r] show ?case .
qed

lemma map_nth_step:
  assumes "p \<notin> set ps" "\<forall>a\<in>set ps. a < length h"
  shows "map ((!) (h[p := b] @ kids)) (ps @ [length h..<length h + length kids]) = map ((!) h) ps @ kids"
proof -
  have old: "map ((!) (h[p := b] @ kids)) ps = map ((!) h) ps"
    using assms by (intro map_nth_old) auto
  have new: "map ((!) (h[p := b] @ kids)) [length h..<length h + length kids] = kids"
    using map_nth_fresh[of "h[p := b]" kids] by simp
  show ?thesis by (simp only: map_append old new)
qed

lemma solve_loop_values:
  assumes "valid_stack h ps" "valid_stack g qs" "map ((!) h) ps = map ((!) g) qs"
    and "\<forall>a. pz = Some a \<longrightarrow> a < length h" "\<forall>a. qz = Some a \<longrightarrow> a < length g"
    and "map_option ((!) h) pz = map_option ((!) g) qz"
  shows "same_result (solve_loop h ps pz) (solve_loop g qs qz)"
  using assms
proof (induction "(h, ps)" arbitrary: h ps pz g qs qz rule: wf_induct_rule[OF wf_stack_less])
  case less: 1
  show ?case
  proof (cases ps rule: rev_cases)
    case Nil
    with less.prems(3) have q: "qs = []" by simp
    have "solve_loop h [] pz = Some (Inr (pz, h))" "solve_loop g [] qz = Some (Inr (qz, g))"
      by (subst solve_loop.simps, simp)+
    then show ?thesis using Nil q less.prems(4,5,6) by (simp add: same_result_def)
  next
    case (snoc ps1 p)
    from less.prems(3) snoc obtain qs1 q where q: "qs = qs1 @ [q]"
      by (cases qs rule: rev_cases) auto
    have e: "map ((!) h) ps1 = map ((!) g) qs1" "h ! p = g ! q"
      using less.prems(3) snoc q by simp_all
    have p: "p < length h" "p \<notin> set ps1" and v1: "distinct ps1" "\<forall>a\<in>set ps1. a < length h"
      using less.prems(1) snoc by (auto simp: valid_stack_def)
    have q': "q < length g" "q \<notin> set qs1" and w1: "distinct qs1" "\<forall>a\<in>set qs1. a < length g"
      using less.prems(2) q by (auto simp: valid_stack_def)
    have len: "length ps1 = length qs1" using e(1) by (metis length_map)
    note sp = solve_loop_step[OF p(1), of ps1 pz] and sq = solve_loop_step[OF q'(1), of qs1 qz]
    show ?thesis
    proof (cases "branch (h ! p)")
      case (Inl err)
      then show ?thesis using sp sq e(2) snoc q by (simp add: same_result_def)
    next
      case (Inr out)
      note bl = branch_less[OF Inr]
      show ?thesis
      proof (cases out)
        case (Found b)
        have "((h[p := b], []), (h, ps)) \<in> stack_less" unfolding snoc by (rule stack_less_clear)
        from less.hyps[OF this, of "g[q := b]" "[]" "Some p" "Some q"] p(1) q'(1)
        have "same_result (solve_loop (h[p := b]) [] (Some p)) (solve_loop (g[q := b]) [] (Some q))"
          by (simp add: valid_stack_def)
        then show ?thesis using sp sq e(2) snoc q Inr Found by simp
      next
        case (Dead b)
        let ?pz = "if ps1 = [] then None else Some p" and ?qz = "if qs1 = [] then None else Some q"
        have m1: "map ((!) (h[p := b])) ps1 = map ((!) h) ps1"
          using map_nth_step[OF p(2) v1(2), of b "[]"] by simp
        have m2: "map ((!) (g[q := b])) qs1 = map ((!) g) qs1"
          using map_nth_step[OF q'(2) w1(2), of b "[]"] by simp
        have "((h[p := b] @ [], ps1 @ [length h..<length h + length ([]::Sudoku list)]), (h, ps1 @ [p])) \<in> stack_less"
          by (rule stack_less_pop) (use p v1 in auto)
        then have "((h[p := b], ps1), (h, ps)) \<in> stack_less" by (simp add: snoc)
        moreover have "valid_stack (h[p := b]) ps1" "valid_stack (g[q := b]) qs1"
          using v1 w1 by (simp_all add: valid_stack_def)
        moreover have "map ((!) (h[p := b])) ps1 = map ((!) (g[q := b])) qs1"
          using m1 m2 e(1) by simp
        moreover have "\<forall>a. ?pz = Some a \<longrightarrow> a < length (h[p := b])"
          "\<forall>a. ?qz = Some a \<longrightarrow> a < length (g[q := b])"
          using p(1) q'(1) by simp_all
        moreover have "map_option ((!) (h[p := b])) ?pz = map_option ((!) (g[q := b])) ?qz"
          using len p(1) q'(1) by auto
        ultimately have "same_result (solve_loop (h[p := b]) ps1 ?pz) (solve_loop (g[q := b]) qs1 ?qz)"
          by (rule less.hyps)
        then show ?thesis using sp sq e(2) snoc q Inr Dead by simp
      next
        case (Fork b kids)
        let ?h2 = "h[p := b] @ kids" and ?g2 = "g[q := b] @ kids"
        let ?ps2 = "ps1 @ [length h..<length h + length kids]"
        let ?qs2 = "qs1 @ [length g..<length g + length kids]"
        from bl Fork have kl: "\<forall>k\<in>set kids. (k, h ! p) \<in> board_less"
          using board_less_trans by auto
        have "((?h2, ?ps2), (h, ps1 @ [p])) \<in> stack_less"
          by (rule stack_less_pop) (use p v1 kl in auto)
        then have "((?h2, ?ps2), (h, ps)) \<in> stack_less" by (simp add: snoc)
        moreover have "valid_stack ?h2 ?ps2" "valid_stack ?g2 ?qs2"
          using v1 w1 by (auto simp: valid_stack_def)
        moreover have "map ((!) ?h2) ?ps2 = map ((!) ?g2) ?qs2"
          using map_nth_step[OF p(2) v1(2), of b kids] map_nth_step[OF q'(2) w1(2), of b kids] e(1)
          by simp
        moreover have "\<forall>a. Some p = Some a \<longrightarrow> a < length ?h2" "\<forall>a. Some q = Some a \<longrightarrow> a < length ?g2"
          using p(1) q'(1) by simp_all
        moreover have "map_option ((!) ?h2) (Some p) = map_option ((!) ?g2) (Some q)"
          using p(1) q'(1) by (simp add: nth_append)
        ultimately have "same_result (solve_loop ?h2 ?ps2 (Some p)) (solve_loop ?g2 ?qs2 (Some q))"
          by (rule less.hyps)
        then show ?thesis using sp sq e(2) snoc q Inr Fork by simp
      qed
    qed
  qed
qed

section \<open>Facts about reachable boards\<close>

lemma row_board_reachable: "reachable 2 row_board"
proof -
  have "\<not> isl (set_cells (Sudoku_init 2) row_clues)" by code_simp
  then have "set_cells (Sudoku_init 2) row_clues = Inr row_board"
    unfolding row_board_def by simp
  from set_cells_reachable[OF reachable.fresh this] show ?thesis .
qed

lemma dead_end_board_reachable: "reachable 2 dead_end_board"
proof -
  have "\<not> isl (set_cells row_board [(4, 1, 3)])" by code_simp
  then have "set_cells row_board [(4, 1, 3)] = Inr dead_end_board"
    unfolding dead_end_board_def by simp
  from set_cells_reachable[OF row_board_reachable this] show ?thesis .
qed

lemma fill_in_all_knowns_fixed:
  "fill_in_all_knowns b = Inr b' \<Longrightarrow> find_one_possible b' = Inr None"
proof (induction b rule: fill_in_all_knowns.induct)
  case (1 b)
  show ?case
  proof (cases "find_one_possible b")
    case (Inl e)
    with "1.prems" show ?thesis by (simp add: fill_in_all_knowns.simps[of b])
  next
    case (Inr r)
    show ?thesis
    proof (cases r)
      case None
      with Inr "1.prems" show ?thesis by (simp add: fill_in_all_knowns.simps[of b])
    next
      case (Some rc)
      obtain row col where rc: "rc = (row, col)" by (cases rc)
      from "1.prems" Inr Some rc obtain c v rest ok b1 where
        c: "get_cell (cell b) row col = Inr c" and p: "possible c = v # rest"
        and s: "set_cell b v row col = Inr (ok, b1)" and f: "fill_in_all_knowns b1 = Inr b'"
        by (simp add: fill_in_all_knowns.simps[of b] split: sum.splits list.splits prod.splits)
      from "1.IH"[OF Inr Some rc[symmetric] c p s refl f] show ?thesis .
    qed
  qed
qed

lemma reachable_shape:
  assumes "0 \<le> bs" "reachable bs b"
  shows "box_size b = bs" "max_val b = bs * bs" "grid_ok (nat (bs * bs)) (cell b)"
    "shape bs b"
  using reachable_inv[OF assms] by (simp_all add: board_inv_def shape_def)

lemma cells_filled_le:
  assumes "board_inv bs b"
  shows "cells_filled b \<le> max_val b * max_val b"
proof -
  let ?n = "nat (bs * bs)"
  have g: "grid_ok ?n (cell b)" and m: "max_val b = int ?n"
    and c: "cells_filled b = int (grid_sum filled (cell b))"
    using assms by (simp_all add: board_inv_def shape_def)
  from grid_sum_filled_le[OF g] have "int (grid_sum filled (cell b)) \<le> int (?n * ?n)"
    by (simp only: of_nat_le_iff)
  then show ?thesis unfolding c m by simp
qed

lemma set_cell_False_iff:
  "set_cell b v row col = Inr (False, b') \<longleftrightarrow>
     (\<exists>c. get_cell (cell b) row col = Inr c \<and> v \<notin> set (possible c)) \<and> b' = b"
  by (auto simp: set_cell_def split: sum.splits)

lemma get_cell_shape:
  assumes "shape bs b" "get_cell (cell b) row col = Inr c" "n = nat (bs * bs)"
  shows "- int n \<le> row \<and> row < int n \<and> - int n \<le> col \<and> col < int n \<and>
         c = cell_at b (pos n row, pos n col) \<and> in_grid b (pos n row, pos n col)"
proof -
  have g: "grid_ok n (cell b)" and m: "max_val b = bs * bs"
    using assms(1,3) by (simp_all add: shape_def)
  from assms(2) obtain i j where i: "py_index (length (cell b)) row = Some i"
    and j: "py_index (length (cell b ! i)) col = Some j"
    by (auto simp: get_cell_def split: option.splits)
  have il: "i < n" using i g by (auto simp: grid_ok_def dest: py_index_less)
  then have j': "py_index n col = Some j" and i': "py_index n row = Some i"
    using i j g by (simp_all add: grid_ok_def)
  have r: "- int n \<le> row \<and> row < int n" "- int n \<le> col \<and> col < int n"
    using i' j' by (auto simp: py_index_def split: if_splits)
  then have p: "pos n row = i" "pos n col = j"
    using i' j' py_index_Some[of n row] py_index_Some[of n col] by simp_all
  have "c = cell b ! i ! j" using get_cell_ok[OF g i' j'] assms(2) by simp
  moreover have "j < n" using j' by (rule py_index_less)
  ultimately show ?thesis using r p il m assms(3) by (simp add: cell_at_def in_grid_def)
qed

lemma set_cell_True_effect:
  assumes inv: "board_inv bs b" and s: "set_cell b v row col = Inr (True, b')"
    and n: "n = nat (bs * bs)"
  shows "board_inv bs b' \<and> cells_filled b' = cells_filled b + 1 \<and>
         in_grid b (pos n row, pos n col) \<and>
         v \<in> set (possible (cell_at b (pos n row, pos n col))) \<and>
         cell_at b' (pos n row, pos n col) = \<lparr>cell_value = v, possible = [], cell_max_val = bs * bs\<rparr> \<and>
         (\<forall>q. in_grid b q \<and> peer (nat bs) (pos n row, pos n col) q \<longrightarrow> v \<notin> set (possible (cell_at b' q))) \<and>
         (\<forall>q. in_grid b q \<and> q \<noteq> (pos n row, pos n col) \<longrightarrow>
               cell_value (cell_at b' q) = cell_value (cell_at b q) \<and>
               possible (cell_at b' q) =
                 (if peer (nat bs) (pos n row, pos n col) q then remove1 v (possible (cell_at b q))
                  else possible (cell_at b q)))"
proof -
  have sh: "shape bs b" using inv by (simp add: board_inv_def)
  have rc: "- (bs * bs) \<le> row \<and> row < bs * bs \<and> - (bs * bs) \<le> col \<and> col < bs * bs"
    using set_cell_range[OF sh, of row col v] s by auto
  then have rc': "- int n \<le> row" "row < int n" "- int n \<le> col" "col < int n"
    using n by simp_all
  have v: "v \<in> set (possible (cell b ! pos n row ! pos n col))"
    using set_cell_False[OF sh n rc', of v] s by auto
  have n0: "0 < n" using rc' by linarith
  have ig: "in_grid b (pos n row, pos n col)"
    using sh n n0 by (simp add: in_grid_def shape_def pos_less)
  from set_cell_inv_True[OF inv n rc' v] s v ig show ?thesis by (auto simp: cell_at_def)
qed

lemma reached_dead_end_iff:
  assumes "board_inv bs b"
  shows "reached_dead_end b =
    Inr (\<exists>p. in_grid b p \<and> cell_value (cell_at b p) = 0 \<and> possible (cell_at b p) = [])"
proof -
  have sh: "shape bs b" using assms by (simp add: board_inv_def)
  have m: "nat (max_val b) = nat (bs * bs)" using sh by (simp add: shape_def)
  have "(\<exists>p. in_grid b p \<and> cell_value (cell_at b p) = 0 \<and> possible (cell_at b p) = []) \<longleftrightarrow>
        (\<exists>i<nat (bs * bs). \<exists>j<nat (bs * bs). cell_value (cell b ! i ! j) = 0 \<and> possible (cell b ! i ! j) = [])"
    by (auto simp: in_grid_def cell_at_def m)
  with reached_dead_end_shape[OF sh refl] show ?thesis by simp
qed

section \<open>The claims about assignment and propagation\<close>

text \<open>
  C2.  On every board, \<open>set_cell\<close> returns \<open>False\<close> exactly when the cell exists and the
  value is not in its candidate list, and then the board is unchanged; so it refuses
  every value on a cell without candidates.  On a reachable board a filled cell has no
  candidates and refuses every value; a candidate value is accepted, \<open>cells_filled\<close>
  grows by one, and afterwards the same value is refused on every cell that shares the
  row, the column or the box.  On a fresh 9 by 9 board a second clue with the value of the
  first in the same row is refused and \<open>cells_filled\<close> stays 1.
\<close>

theorem set_cell_refuses:
  "(set_cell b v row col = Inr (False, b') \<longleftrightarrow>
      (\<exists>c. get_cell (cell b) row col = Inr c \<and> v \<notin> set (possible c)) \<and> b' = b) \<and>
   (get_cell (cell b) row col = Inr c \<and> possible c = [] \<longrightarrow> set_cell b v row col = Inr (False, b)) \<and>
   (0 \<le> bs \<and> reachable bs b \<and> get_cell (cell b) row col = Inr c \<longrightarrow>
      (cell_value c \<noteq> 0 \<longrightarrow> set_cell b v row col = Inr (False, b)) \<and>
      (v \<in> set (possible c) \<longrightarrow>
         (\<exists>b1. set_cell b v row col = Inr (True, b1) \<and> cells_filled b1 = cells_filled b + 1 \<and>
            (\<forall>q. in_grid b q \<and>
                  peer (nat bs) (pos (nat (bs * bs)) row, pos (nat (bs * bs)) col) q
               \<longrightarrow> (\<forall>r' c'. get_cell (cell b1) r' c' = Inr (cell_at b1 q)
                      \<longrightarrow> set_cell b1 v r' c' = Inr (False, b1)))))) \<and>
   (1 \<le> v \<and> v \<le> 9 \<and> 0 \<le> row \<and> row < 9 \<and> 0 \<le> col \<and> col < 9 \<and> 0 \<le> col' \<and> col' < 9 \<and>
    col' \<noteq> col \<longrightarrow>
      (\<exists>b1. set_cell (Sudoku_init 3) v row col = Inr (True, b1) \<and> cells_filled b1 = 1 \<and>
         set_cell b1 v row col' = Inr (False, b1)))"
proof (intro conjI impI)
  show "set_cell b v row col = Inr (False, b') \<longleftrightarrow>
      (\<exists>c. get_cell (cell b) row col = Inr c \<and> v \<notin> set (possible c)) \<and> b' = b"
    by (rule set_cell_False_iff)
next
  assume "get_cell (cell b) row col = Inr c \<and> possible c = []"
  then show "set_cell b v row col = Inr (False, b)" by (simp add: set_cell_False_iff)
next
  assume a: "0 \<le> bs \<and> reachable bs b \<and> get_cell (cell b) row col = Inr c"
    and nz: "cell_value c \<noteq> 0"
  let ?n = "nat (bs * bs)"
  have inv: "board_inv bs b" using a reachable_inv by blast
  then have sh: "shape bs b" by (simp add: board_inv_def)
  from get_cell_shape[OF sh _ refl] a
  have c: "c = cell_at b (pos ?n row, pos ?n col)" "in_grid b (pos ?n row, pos ?n col)" by auto
  then have "cell_ok (bs * bs) c"
    using sh by (simp add: shape_def all_cells_def in_grid_def cell_at_def)
  with nz have "possible c = []" by (simp add: cell_ok_def)
  with a show "set_cell b v row col = Inr (False, b)" by (simp add: set_cell_False_iff)
next
  assume a: "0 \<le> bs \<and> reachable bs b \<and> get_cell (cell b) row col = Inr c"
    and v: "v \<in> set (possible c)"
  let ?n = "nat (bs * bs)"
  let ?p0 = "(pos ?n row, pos ?n col)"
  have inv: "board_inv bs b" using a reachable_inv by blast
  then have sh: "shape bs b" by (simp add: board_inv_def)
  from get_cell_shape[OF sh _ refl] a
  have rc: "- int ?n \<le> row" "row < int ?n" "- int ?n \<le> col" "col < int ?n"
    and c: "c = cell_at b ?p0" by auto
  from v c have v': "v \<in> set (possible (cell b ! pos ?n row ! pos ?n col))"
    by (simp add: cell_at_def)
  from set_cell_inv_True[OF inv refl rc v'] obtain b1 where
    b1: "set_cell b v row col = Inr (True, b1)" "cells_filled b1 = cells_filled b + 1"
        "\<forall>q. in_grid b q \<and> peer (nat bs) ?p0 q \<longrightarrow> v \<notin> set (possible (cell_at b1 q))"
    by blast
  have "\<forall>q. in_grid b q \<and> peer (nat bs) ?p0 q
          \<longrightarrow> (\<forall>r' c'. get_cell (cell b1) r' c' = Inr (cell_at b1 q)
                 \<longrightarrow> set_cell b1 v r' c' = Inr (False, b1))"
    using b1(3) by (simp add: set_cell_False_iff)
  with b1(1,2) show "\<exists>b1. set_cell b v row col = Inr (True, b1) \<and> cells_filled b1 = cells_filled b + 1 \<and>
            (\<forall>q. in_grid b q \<and> peer (nat bs) ?p0 q
               \<longrightarrow> (\<forall>r' c'. get_cell (cell b1) r' c' = Inr (cell_at b1 q)
                      \<longrightarrow> set_cell b1 v r' c' = Inr (False, b1)))"
    by blast
next
  assume a: "1 \<le> v \<and> v \<le> 9 \<and> 0 \<le> row \<and> row < 9 \<and> 0 \<le> col \<and> col < 9 \<and> 0 \<le> col' \<and> col' < 9 \<and>
    col' \<noteq> col"
  let ?b = "Sudoku_init 3"
  let ?p0 = "(nat row, nat col)" and ?q = "(nat row, nat col')"
  have inv: "board_inv 3 ?b" by (rule Sudoku_init_inv) simp
  have n: "(9::nat) = nat (3 * 3)" by simp
  have rc: "- int 9 \<le> row" "row < int 9" "- int 9 \<le> col" "col < int 9" using a by simp_all
  have p: "pos 9 row = nat row" "pos 9 col = nat col" "pos 9 col' = nat col'"
    using a by (simp_all add: pos_nat)
  have cellv: "\<And>i j. i < 9 \<Longrightarrow> j < 9 \<Longrightarrow> cell ?b ! i ! j = Cell_init 0 9"
    by (simp add: Sudoku_init_def length_py_range)
  have nr: "nat row < 9" "nat col < 9" "nat col' < 9" using a by linarith+
  then have "cell ?b ! pos 9 row ! pos 9 col = Cell_init 0 9" by (simp add: p cellv)
  then have "v \<in> set (possible (cell ?b ! pos 9 row ! pos 9 col))"
    using a by (simp add: Cell_init_def py_range_def)
  from set_cell_inv_True[OF inv n rc this] obtain b1 where
    b1: "set_cell ?b v row col = Inr (True, b1)" "cells_filled b1 = cells_filled ?b + 1"
        "board_inv 3 b1"
        "\<forall>q. in_grid ?b q \<and> peer (nat 3) (pos 9 row, pos 9 col) q \<longrightarrow> v \<notin> set (possible (cell_at b1 q))"
    by blast
  have "in_grid ?b ?q" using nr by (simp add: in_grid_def Sudoku_init_def)
  moreover have "peer (nat 3) (pos 9 row, pos 9 col) ?q" by (simp add: peer_def p)
  ultimately have "v \<notin> set (possible (cell_at b1 ?q))" using b1(4) by blast
  then have nv: "v \<notin> set (possible (cell b1 ! pos 9 row ! pos 9 col'))"
    by (simp add: cell_at_def p)
  have sh1: "shape 3 b1" using b1(3) by (simp add: board_inv_def)
  have rc': "- int 9 \<le> col'" "col' < int 9" using a by simp_all
  from set_cell_False[OF sh1 n rc(1,2) rc' nv]
  have "set_cell b1 v row col' = Inr (False, b1)" .
  moreover have "cells_filled b1 = 1" using b1(2) by (simp add: Sudoku_init_def)
  ultimately show "\<exists>b1. set_cell ?b v row col = Inr (True, b1) \<and> cells_filled b1 = 1 \<and>
         set_cell b1 v row col' = Inr (False, b1)"
    using b1(1) by blast
qed

theorem set_cell_refuses_witness:
  "(0::int) \<le> 2 \<and> reachable 2 row_board \<and>
   set_cell row_board 1 1 0 = Inr (False, row_board) \<and>
   set_cell row_board 2 0 0 = Inr (False, row_board) \<and>
   set_cell (dead_end_board) 4 0 3 = Inr (False, dead_end_board) \<and>
   (\<exists>b1. set_cell row_board 4 0 3 = Inr (True, b1) \<and> cells_filled b1 = 4 \<and>
      set_cell b1 4 1 3 = Inr (False, b1)) \<and>
   (\<exists>b1. set_cell (Sudoku_init 3) 5 0 0 = Inr (True, b1) \<and> cells_filled b1 = 1 \<and>
      set_cell b1 5 0 4 = Inr (False, b1))"
proof -
  note T1 = set_cell_refuses[THEN conjunct1]
  note T2 = set_cell_refuses[THEN conjunct2, THEN conjunct1, rule_format]
  note T3 = set_cell_refuses[THEN conjunct2, THEN conjunct2, THEN conjunct1, rule_format]
  note T4 = set_cell_refuses[THEN conjunct2, THEN conjunct2, THEN conjunct2, rule_format]
  have g10: "get_cell (cell row_board) 1 0 = Inr (cell_at row_board (1, 0))" by code_simp
  have n10: "1 \<notin> set (possible (cell_at row_board (1, 0)))" by code_simp
  have g00: "get_cell (cell row_board) 0 0 = Inr (cell_at row_board (0, 0))" by code_simp
  have v00: "cell_value (cell_at row_board (0, 0)) \<noteq> 0" by code_simp
  have g03: "get_cell (cell row_board) 0 3 = Inr (cell_at row_board (0, 3))" by code_simp
  have v03: "4 \<in> set (possible (cell_at row_board (0, 3)))" by code_simp
  have cf: "cells_filled row_board = 3" by code_simp
  have gd: "get_cell (cell dead_end_board) 0 3 = Inr (cell_at dead_end_board (0, 3))" by code_simp
  have pd: "possible (cell_at dead_end_board (0, 3)) = []" by code_simp
  have 1: "set_cell row_board 1 1 0 = Inr (False, row_board)"
    using T1[of row_board 1 1 0 row_board] g10 n10 by blast
  have z: "(0::int) \<le> 2" by simp
  have 2: "set_cell row_board 2 0 0 = Inr (False, row_board)"
    using T3[of 2 row_board 0 0 "cell_at row_board (0, 0)" 2] z g00 v00 row_board_reachable
    by blast
  have 3: "set_cell dead_end_board 4 0 3 = Inr (False, dead_end_board)"
    using T2[of dead_end_board 0 3 "cell_at dead_end_board (0, 3)" 4] gd pd by blast
  have "\<exists>b1. set_cell row_board 4 0 3 = Inr (True, b1) \<and> cells_filled b1 = cells_filled row_board + 1 \<and>
            (\<forall>q. in_grid row_board q \<and>
                  peer (nat 2) (pos (nat (2 * 2)) 0, pos (nat (2 * 2)) 3) q
               \<longrightarrow> (\<forall>r' c'. get_cell (cell b1) r' c' = Inr (cell_at b1 q)
                      \<longrightarrow> set_cell b1 4 r' c' = Inr (False, b1)))"
    using T3[of 2 row_board 0 3 "cell_at row_board (0, 3)" 4] z g03 v03 row_board_reachable
    by blast
  then obtain b1 where b1: "set_cell row_board 4 0 3 = Inr (True, b1)"
    "cells_filled b1 = cells_filled row_board + 1"
    "\<forall>q. in_grid row_board q \<and> peer (nat 2) (pos (nat (2 * 2)) 0, pos (nat (2 * 2)) 3) q
         \<longrightarrow> (\<forall>r' c'. get_cell (cell b1) r' c' = Inr (cell_at b1 q)
                \<longrightarrow> set_cell b1 4 r' c' = Inr (False, b1))"
    by blast
  have e: "b1 = snd (projr (set_cell row_board 4 0 3))" using b1(1) by simp
  have i: "in_grid row_board (1, 3)" by code_simp
  have p: "peer (nat 2) (pos (nat (2 * 2)) 0, pos (nat (2 * 2)) 3) (1, 3)"
    by (simp add: peer_def pos_def)
  have g: "get_cell (cell b1) 1 3 = Inr (cell_at b1 (1, 3))" unfolding e by code_simp
  from b1(3) i p g have "set_cell b1 4 1 3 = Inr (False, b1)" by blast
  moreover have "cells_filled b1 = 4" using b1(2) cf by simp
  ultimately have 4: "\<exists>b1. set_cell row_board 4 0 3 = Inr (True, b1) \<and> cells_filled b1 = 4 \<and>
      set_cell b1 4 1 3 = Inr (False, b1)" using b1(1) by blast
  have "1 \<le> (5::int) \<and> (5::int) \<le> 9 \<and> 0 \<le> (0::int) \<and> (0::int) < 9 \<and> 0 \<le> (0::int) \<and> (0::int) < 9 \<and>
        0 \<le> (4::int) \<and> (4::int) < 9 \<and> (4::int) \<noteq> 0" by simp
  from T4[OF this]
  have 5: "\<exists>b1. set_cell (Sudoku_init 3) 5 0 0 = Inr (True, b1) \<and> cells_filled b1 = 1 \<and>
      set_cell b1 5 0 4 = Inr (False, b1)" .
  from z row_board_reachable 1 2 3 4 5 show ?thesis by (intro conjI)
qed

text \<open>
  C3.  A board reachable from \<open>Sudoku(bs)\<close>, \<open>0 \<le> bs\<close>, has no two different cells in a
  row, a column or a box with the same non-zero value.  A successful assignment keeps
  that, and all it does to the other cells is to remove the value from the candidates of
  the cells of the same row, column and box; the cells elsewhere keep value and
  candidates.
\<close>

theorem peers_stay_distinct:
  assumes "0 \<le> bs" "reachable bs b"
  shows "box_size b = bs \<and> max_val b = bs * bs \<and> peers_distinct b \<and>
         (\<forall>v row col b'. set_cell b v row col = Inr (True, b') \<longrightarrow>
            peers_distinct b' \<and>
            (\<forall>q. in_grid b q \<and> peer (nat bs) (pos (nat (bs * bs)) row, pos (nat (bs * bs)) col) q
               \<longrightarrow> v \<notin> set (possible (cell_at b' q))) \<and>
            (\<forall>q. in_grid b q \<and> q \<noteq> (pos (nat (bs * bs)) row, pos (nat (bs * bs)) col)
               \<longrightarrow> cell_value (cell_at b' q) = cell_value (cell_at b q) \<and>
                   possible (cell_at b' q) =
                     (if peer (nat bs) (pos (nat (bs * bs)) row, pos (nat (bs * bs)) col) q
                      then remove1 v (possible (cell_at b q))
                      else possible (cell_at b q))))"
proof -
  have inv: "board_inv bs b" using reachable_inv[OF assms] .
  then have "box_size b = bs" "max_val b = bs * bs" "peers_distinct b"
    by (simp_all add: board_inv_def shape_def)
  moreover have "\<forall>v row col b'. set_cell b v row col = Inr (True, b') \<longrightarrow>
            peers_distinct b' \<and>
            (\<forall>q. in_grid b q \<and> peer (nat bs) (pos (nat (bs * bs)) row, pos (nat (bs * bs)) col) q
               \<longrightarrow> v \<notin> set (possible (cell_at b' q))) \<and>
            (\<forall>q. in_grid b q \<and> q \<noteq> (pos (nat (bs * bs)) row, pos (nat (bs * bs)) col)
               \<longrightarrow> cell_value (cell_at b' q) = cell_value (cell_at b q) \<and>
                   possible (cell_at b' q) =
                     (if peer (nat bs) (pos (nat (bs * bs)) row, pos (nat (bs * bs)) col) q
                      then remove1 v (possible (cell_at b q))
                      else possible (cell_at b q)))"
  proof (intro allI impI)
    fix v row col b' assume s: "set_cell b v row col = Inr (True, b')"
    from set_cell_True_effect[OF inv s refl]
    show "peers_distinct b' \<and>
            (\<forall>q. in_grid b q \<and> peer (nat bs) (pos (nat (bs * bs)) row, pos (nat (bs * bs)) col) q
               \<longrightarrow> v \<notin> set (possible (cell_at b' q))) \<and>
            (\<forall>q. in_grid b q \<and> q \<noteq> (pos (nat (bs * bs)) row, pos (nat (bs * bs)) col)
               \<longrightarrow> cell_value (cell_at b' q) = cell_value (cell_at b q) \<and>
                   possible (cell_at b' q) =
                     (if peer (nat bs) (pos (nat (bs * bs)) row, pos (nat (bs * bs)) col) q
                      then remove1 v (possible (cell_at b q))
                      else possible (cell_at b q)))"
      by (simp add: board_inv_def)
  qed
  ultimately show ?thesis by blast
qed

theorem peers_stay_distinct_witness:
  "(0::int) \<le> 2 \<and> reachable 2 row_board \<and>
   box_size row_board = 2 \<and> max_val row_board = 4 \<and> peers_distinct row_board \<and>
   set_cell row_board 4 0 3 = Inr (True, row_board_assigned) \<and>
   peers_distinct row_board_assigned \<and>
   possible (cell_at row_board (1, 3)) = [1, 2, 4] \<and>
   possible (cell_at row_board_assigned (1, 3)) = [1, 2] \<and>
   possible (cell_at row_board_assigned (2, 0)) = possible (cell_at row_board (2, 0))"
proof -
  have z: "(0::int) \<le> 2" by simp
  note T = peers_stay_distinct[OF z row_board_reachable]
  have s: "set_cell row_board 4 0 3 = Inr (True, row_board_assigned)"
    unfolding row_board_assigned_def by code_simp
  have i: "in_grid row_board (1, 3)" "in_grid row_board (2, 0)" by code_simp+
  have p: "peer (nat 2) (pos (nat (2 * 2)) 0, pos (nat (2 * 2)) 3) (1, 3)"
    "\<not> peer (nat 2) (pos (nat (2 * 2)) 0, pos (nat (2 * 2)) 3) (2, 0)"
    "(1, 3) \<noteq> (pos (nat (2 * 2)) 0, pos (nat (2 * 2)) 3)"
    "(2, 0) \<noteq> (pos (nat (2 * 2)) 0, pos (nat (2 * 2)) 3)"
    by (simp_all add: peer_def pos_def)
  have o: "possible (cell_at row_board (1, 3)) = [1, 2, 4]" by code_simp
  from T have b: "box_size row_board = 2" "max_val row_board = 4" "peers_distinct row_board"
    by simp_all
  from T s have e: "peers_distinct row_board_assigned"
    "\<forall>q. in_grid row_board q \<and> q \<noteq> (pos (nat (2 * 2)) 0, pos (nat (2 * 2)) 3)
          \<longrightarrow> cell_value (cell_at row_board_assigned q) = cell_value (cell_at row_board q) \<and>
              possible (cell_at row_board_assigned q) =
                (if peer (nat 2) (pos (nat (2 * 2)) 0, pos (nat (2 * 2)) 3) q
                 then remove1 4 (possible (cell_at row_board q))
                 else possible (cell_at row_board q))"
    by blast+
  from e(2) i(1) p(1,3) o have n: "possible (cell_at row_board_assigned (1, 3)) = [1, 2]"
    by simp
  from e(2) i(2) p(2,4)
  have u: "possible (cell_at row_board_assigned (2, 0)) = possible (cell_at row_board (2, 0))"
    by simp
  from z row_board_reachable b s e(1) o n u show ?thesis by (intro conjI)
qed

text \<open>
  C4, as amended.  In every cell of a reachable board a non-zero value means an empty
  candidate list, and a fresh cell without value has exactly the candidates 1 to N.  The
  converse holds only off dead ends: a cell with an empty candidate list has a value, or
  \<open>reached_dead_end\<close> returns \<open>True\<close>.
\<close>

theorem value_means_no_candidates:
  assumes "0 \<le> bs" "reachable bs b" "in_grid b p"
  shows "(cell_value (cell_at b p) \<noteq> 0 \<longrightarrow> possible (cell_at b p) = []) \<and>
         (possible (cell_at b p) = [] \<longrightarrow>
            cell_value (cell_at b p) \<noteq> 0 \<or> reached_dead_end b = Inr True) \<and>
         possible (Cell_init 0 N) = [1..N] \<and>
         (in_grid (Sudoku_init bs) q \<longrightarrow> cell_at (Sudoku_init bs) q = Cell_init 0 (bs * bs))"
proof -
  have inv: "board_inv bs b" using reachable_inv[OF assms(1,2)] .
  then have sh: "shape bs b" by (simp add: board_inv_def)
  have "cell_ok (bs * bs) (cell_at b p)"
    using sh assms(3) by (simp add: shape_def all_cells_def in_grid_def cell_at_def)
  then have 1: "cell_value (cell_at b p) \<noteq> 0 \<longrightarrow> possible (cell_at b p) = []"
    by (simp add: cell_ok_def)
  have 2: "possible (cell_at b p) = [] \<longrightarrow>
            cell_value (cell_at b p) \<noteq> 0 \<or> reached_dead_end b = Inr True"
  proof (intro impI)
    assume e: "possible (cell_at b p) = []"
    show "cell_value (cell_at b p) \<noteq> 0 \<or> reached_dead_end b = Inr True"
    proof (cases "cell_value (cell_at b p) = 0")
      case True
      with e assms(3)
      have "\<exists>p. in_grid b p \<and> cell_value (cell_at b p) = 0 \<and> possible (cell_at b p) = []"
        by blast
      then have "reached_dead_end b = Inr True" by (simp add: reached_dead_end_iff[OF inv])
      then show ?thesis by simp
    next
      case False
      then show ?thesis by simp
    qed
  qed
  have 3: "possible (Cell_init 0 N) = [1..N]" by (simp add: Cell_init_def py_range_def)
  have 4: "in_grid (Sudoku_init bs) q \<longrightarrow> cell_at (Sudoku_init bs) q = Cell_init 0 (bs * bs)"
    by (simp add: in_grid_def cell_at_def Sudoku_init_def length_py_range power2_eq_square)
  from 1 2 3 4 show ?thesis by (intro conjI)
qed

theorem value_means_no_candidates_witness:
  "(0::int) \<le> 2 \<and> reachable 2 dead_end_board \<and> in_grid dead_end_board (0, 0) \<and>
   cell_value (cell_at dead_end_board (0, 0)) = 1 \<and>
   possible (cell_at dead_end_board (0, 0)) = [] \<and>
   in_grid dead_end_board (0, 3) \<and> possible (cell_at dead_end_board (0, 3)) = [] \<and>
   reached_dead_end dead_end_board = Inr True \<and>
   possible (Cell_init 0 4) = [1, 2, 3, 4] \<and>
   cell_at (Sudoku_init 2) (1, 1) = Cell_init 0 4"
proof -
  have z: "(0::int) \<le> 2" by simp
  have i: "in_grid dead_end_board (0, 0)" "in_grid dead_end_board (0, 3)"
    "in_grid (Sudoku_init 2) (1, 1)" by code_simp+
  have v: "cell_value (cell_at dead_end_board (0, 0)) = 1"
    "cell_value (cell_at dead_end_board (0, 3)) = 0"
    "possible (cell_at dead_end_board (0, 3)) = []" by code_simp+
  note T0 = value_means_no_candidates[OF z dead_end_board_reachable i(1), of 4 "(1, 1)"]
  note T3 = value_means_no_candidates[OF z dead_end_board_reachable i(2), of 4 "(1, 1)"]
  from T0 v(1) have a: "possible (cell_at dead_end_board (0, 0)) = []" by simp
  from T3 v(2,3) have d: "reached_dead_end dead_end_board = Inr True" by simp
  from T0 have c: "possible (Cell_init 0 4) = [1..4]" by blast
  have c': "[1..4] = [1, 2, 3, (4::int)]" by code_simp
  from T0 i(3) have f: "cell_at (Sudoku_init 2) (1, 1) = Cell_init 0 4" by simp
  from z dead_end_board_reachable i(1,2) v(1,3) a d c c' f show ?thesis by simp
qed

text \<open>
  C4 as stated, with the equivalence, fails on a reachable board: after the clues
  1, 2, 3 in row 0 and 4 at row 1, column 3, the cell at row 0, column 3 has value 0 and
  no candidate.
\<close>

theorem candidate_invariant_counterexample:
  "reachable 2 dead_end_board \<and> in_grid dead_end_board (0, 3) \<and>
   cell_value (cell_at dead_end_board (0, 3)) = 0 \<and>
   possible (cell_at dead_end_board (0, 3)) = [] \<and>
   \<not> (cell_value (cell_at dead_end_board (0, 3)) \<noteq> 0 \<longleftrightarrow>
        possible (cell_at dead_end_board (0, 3)) = [])"
proof -
  have "in_grid dead_end_board (0, 3)" "cell_value (cell_at dead_end_board (0, 3)) = 0"
    "possible (cell_at dead_end_board (0, 3)) = []" by code_simp+
  with dead_end_board_reachable show ?thesis by simp
qed

text \<open>
  C5.  \<open>fill_in_all_knowns\<close> is a total function: its loop ends on every board, by the
  termination proof of its definition.  On a reachable board it returns without an
  exception; each round passes the single candidate of the cell found to \<open>set_cell\<close>,
  which returns \<open>True\<close> and adds one to \<open>cells_filled\<close>; \<open>cells_filled\<close> never exceeds
  \<open>max_val\<close> squared; and on return no cell has exactly one candidate.
\<close>

theorem fill_in_all_knowns_terminates:
  assumes "0 \<le> bs" "reachable bs b"
  shows "\<exists>b'. fill_in_all_knowns b = Inr b' \<and> reachable bs b' \<and>
           (\<forall>p. in_grid b' p \<longrightarrow> length (possible (cell_at b' p)) \<noteq> 1) \<and>
           cells_filled b \<le> cells_filled b' \<and> cells_filled b' \<le> max_val b' * max_val b' \<and>
           (\<forall>row col. find_one_possible b = Inr (Some (row, col)) \<longrightarrow>
              (\<exists>c v b1. get_cell (cell b) row col = Inr c \<and> possible c = [v] \<and>
                 set_cell b v row col = Inr (True, b1) \<and>
                 cells_filled b1 = cells_filled b + 1 \<and>
                 fill_in_all_knowns b = fill_in_all_knowns b1))"
proof -
  have inv: "board_inv bs b" using reachable_inv[OF assms] .
  from fill_in_all_knowns_inv[OF inv] obtain b' where
    f: "fill_in_all_knowns b = Inr b'" and inv': "board_inv bs b'"
    and le: "cells_filled b \<le> cells_filled b'" by blast
  have r': "reachable bs b'" using reachable.propagate[OF assms(2) f] .
  have sh': "shape bs b'" using inv' by (simp add: board_inv_def)
  have "find_one_possible b' = Inr None" using fill_in_all_knowns_fixed[OF f] .
  with find_one_possible_shape[OF sh' refl]
  have "\<forall>i<nat (bs * bs). \<forall>j<nat (bs * bs). length (possible (cell b' ! i ! j)) \<noteq> 1" by auto
  then have none: "\<forall>p. in_grid b' p \<longrightarrow> length (possible (cell_at b' p)) \<noteq> 1"
    using sh' by (simp add: in_grid_def cell_at_def shape_def)
  have step: "\<forall>row col. find_one_possible b = Inr (Some (row, col)) \<longrightarrow>
              (\<exists>c v b1. get_cell (cell b) row col = Inr c \<and> possible c = [v] \<and>
                 set_cell b v row col = Inr (True, b1) \<and>
                 cells_filled b1 = cells_filled b + 1 \<and>
                 fill_in_all_knowns b = fill_in_all_knowns b1)"
    using fill_step[OF inv] by blast
  from f r' none le cells_filled_le[OF inv'] step show ?thesis by blast
qed

theorem fill_in_all_knowns_terminates_witness:
  "(0::int) \<le> 2 \<and> reachable 2 row_board \<and>
   fill_in_all_knowns row_board = Inr row_board_filled \<and>
   find_one_possible row_board = Inr (Some (0, 3)) \<and>
   possible (cell_at row_board (0, 3)) = [4] \<and>
   fill_in_all_knowns row_board = fill_in_all_knowns (snd (projr (set_cell row_board 4 0 3))) \<and>
   cells_filled row_board = 3 \<and> cells_filled row_board_filled = 4 \<and>
   cells_filled row_board_filled \<le> max_val row_board_filled * max_val row_board_filled \<and>
   length (possible (cell_at row_board_filled (1, 2))) \<noteq> 1"
proof -
  have "\<not> isl (fill_in_all_knowns row_board)" by code_simp
  then have f: "fill_in_all_knowns row_board = Inr row_board_filled"
    unfolding row_board_filled_def by simp
  have o: "find_one_possible row_board = Inr (Some (0, 3))" by code_simp
  have g: "get_cell (cell row_board) 0 3 = Inr (cell_at row_board (0, 3))" by code_simp
  have p: "possible (cell_at row_board (0, 3)) = [4]" by code_simp
  have c: "cells_filled row_board = 3" "cells_filled row_board_filled = 4" by code_simp+
  have i: "in_grid row_board_filled (1, 2)" by code_simp
  from fill_in_all_knowns_terminates[OF _ row_board_reachable] obtain b' where
    b': "fill_in_all_knowns row_board = Inr b'"
      "\<forall>p. in_grid b' p \<longrightarrow> length (possible (cell_at b' p)) \<noteq> 1"
      "cells_filled b' \<le> max_val b' * max_val b'"
      "\<forall>row col. find_one_possible row_board = Inr (Some (row, col)) \<longrightarrow>
              (\<exists>c v b1. get_cell (cell row_board) row col = Inr c \<and> possible c = [v] \<and>
                 set_cell row_board v row col = Inr (True, b1) \<and>
                 cells_filled b1 = cells_filled row_board + 1 \<and>
                 fill_in_all_knowns row_board = fill_in_all_knowns b1)"
    by auto
  from b'(1) f have e: "b' = row_board_filled" by simp
  from b'(4) o obtain c v b1 where
    s: "get_cell (cell row_board) 0 3 = Inr c" "possible c = [v]"
       "set_cell row_board v 0 3 = Inr (True, b1)"
       "fill_in_all_knowns row_board = fill_in_all_knowns b1" by blast
  from s(1,2) g p have "v = 4" by simp
  with s(3,4) have "fill_in_all_knowns row_board = fill_in_all_knowns (snd (projr (set_cell row_board 4 0 3)))"
    by simp
  with f o p c b'(2,3) e i row_board_reachable show ?thesis by simp
qed

text \<open>
  C8.  On every board, when \<open>fill_in_all_knowns\<close> returns a board, a second run on that
  board finds no cell with exactly one candidate and returns it unchanged; on a reachable
  board the first run does return.
\<close>

theorem fill_in_all_knowns_idempotent:
  "(\<forall>b'. fill_in_all_knowns b = Inr b' \<longrightarrow>
      find_one_possible b' = Inr None \<and> fill_in_all_knowns b' = Inr b') \<and>
   (0 \<le> bs \<and> reachable bs b \<longrightarrow> (\<exists>b'. fill_in_all_knowns b = Inr b'))"
proof (intro conjI allI impI)
  fix b' assume f: "fill_in_all_knowns b = Inr b'"
  show n: "find_one_possible b' = Inr None" using fill_in_all_knowns_fixed[OF f] .
  show "fill_in_all_knowns b' = Inr b'" using n by (simp add: fill_in_all_knowns.simps[of b'])
next
  assume "0 \<le> bs \<and> reachable bs b"
  then have "board_inv bs b" using reachable_inv by blast
  from fill_in_all_knowns_inv[OF this] show "\<exists>b'. fill_in_all_knowns b = Inr b'" by blast
qed

theorem fill_in_all_knowns_idempotent_witness:
  "(0::int) \<le> 2 \<and> reachable 2 row_board \<and>
   fill_in_all_knowns row_board = Inr row_board_filled \<and>
   cells_filled row_board = 3 \<and> cells_filled row_board_filled = 4 \<and>
   find_one_possible row_board_filled = Inr None \<and>
   fill_in_all_knowns row_board_filled = Inr row_board_filled"
proof -
  have "\<not> isl (fill_in_all_knowns row_board)" by code_simp
  then have f: "fill_in_all_knowns row_board = Inr row_board_filled"
    unfolding row_board_filled_def by simp
  have c: "cells_filled row_board = 3" "cells_filled row_board_filled = 4"
    by code_simp+
  from fill_in_all_knowns_idempotent[of row_board 2] f
  have "find_one_possible row_board_filled = Inr None \<and>
        fill_in_all_knowns row_board_filled = Inr row_board_filled" by blast
  with f c row_board_reachable show ?thesis by simp
qed

lemma cell_ok_sorted: "cell_ok N c \<Longrightarrow> sorted_wrt (<) (possible c)"
  by (simp add: cell_ok_def strict_sorted_iff)

lemma fork_step:
  assumes inv: "board_inv bs (h ! p)" and p: "p < length h"
    and f: "fill_in_all_knowns (h ! p) = Inr b"
    and s: "solved b = Inr False" and d: "reached_dead_end b = Inr False"
  shows "\<exists>row col c kids.
           find_lowest_possibles b = Inr (row, col) \<and> get_cell (cell b) row col = Inr c \<and>
           possible c \<noteq> [] \<and> sorted_wrt (<) (possible c) \<and>
           length kids = length (possible c) \<and>
           (\<forall>k<length kids. set_cell b (possible c ! k) row col = Inr (True, kids ! k)) \<and>
           fork_puzzles (h[p := b]) ps p row col (possible c) =
             Inr (h[p := b] @ kids, ps @ [length h..<length h + length kids]) \<and>
           solve_loop h (ps @ [p]) pz =
             solve_loop (h[p := b] @ kids) (ps @ [length h..<length h + length kids]) (Some p)"
proof -
  let ?n = "nat (bs * bs)"
  from fill_in_all_knowns_inv[OF inv] f have invb: "board_inv bs b" by auto
  then have sh: "shape bs b" by (simp add: board_inv_def)
  from s solved_shape[OF sh refl] obtain i0 j0 where
    ij: "i0 < ?n" "j0 < ?n" "cell_value (cell b ! i0 ! j0) = 0" by auto
  from d reached_dead_end_shape[OF sh refl] ij
  have ne: "possible (cell b ! i0 ! j0) \<noteq> []" by auto
  from find_lowest_possibles_shape[OF sh refl ij(1,2) ne] obtain r c where
    rc: "r < ?n" "c < ?n" "find_lowest_possibles b = Inr (int r, int c)"
      "possible (cell b ! r ! c) \<noteq> []" by blast
  let ?c = "cell b ! r ! c"
  have get: "get_cell (cell b) (int r) (int c) = Inr ?c"
    using get_cell_ok[OF shape_grid(2)[OF sh], of "int r" r "int c" c] rc(1,2)
    by (simp add: py_index_nat)
  have srt: "sorted_wrt (<) (possible ?c)"
    using sh rc(1,2) by (intro cell_ok_sorted[of "bs * bs"]) (simp add: shape_def all_cells_def)
  from fork_values_inv[OF invb refl rc(1,2), of "possible ?c"] obtain kids where
    kids: "fork_values b (int r) (int c) (possible ?c) = Inr kids"
      "length kids = length (possible ?c)"
      "\<forall>k<length (possible ?c). set_cell b (possible ?c ! k) (int r) (int c) = Inr (True, kids ! k)"
    by auto
  have br: "branch (h ! p) = Inr (Fork b kids)"
    using f s d rc(3) get kids(1) by (simp add: branch_def)
  have step: "solve_loop h (ps @ [p]) pz =
      solve_loop (h[p := b] @ kids) (ps @ [length h..<length h + length kids]) (Some p)"
    using solve_loop_step[OF p, of ps pz] br by simp
  have fp: "fork_puzzles (h[p := b]) ps p (int r) (int c) (possible ?c) =
             Inr (h[p := b] @ kids, ps @ [length h..<length h + length kids])"
    using fork_puzzles_values[of p "h[p := b]" ps "int r" "int c" "possible ?c"] p kids(1)
    by simp
  from rc(3,4) get srt kids(2,3) fp step show ?thesis by (intro exI[of _ "int r"] exI[of _ "int c"] exI[of _ ?c] exI[of _ kids]) simp
qed

lemma solve_values:
  assumes "s < length h" "t < length g" "h ! s = g ! t"
  shows "same_result (solve h s) (solve g t)"
proof -
  have "same_result (solve_loop (h @ [h ! s]) [length h] None) (solve_loop (g @ [g ! t]) [length g] None)"
    by (rule solve_loop_values) (simp_all add: valid_stack_def assms(3))
  then show ?thesis by (simp add: solve_def deepcopy_def)
qed

lemma solve_row_board: "solve [row_board] 0 = Some (Inr row_board_result)"
proof -
  have "solve [row_board] 0 \<noteq> None \<and> \<not> isl (the (solve [row_board] 0))" by code_simp
  then show ?thesis unfolding row_board_result_def by auto
qed

lemma solve_row_board_values:
  "fst row_board_result = Some 9"
  "map (map cell_value) (cell (snd row_board_result ! 9)) =
     [[1, 2, 3, 4], [4, 3, 2, 1], [3, 4, 1, 2], [2, 1, 4, 3]]"
  by code_simp+

section \<open>The claims about the search\<close>

text \<open>
  C1.  Called on a board reachable from \<open>Sudoku(bs)\<close>, \<open>0 \<le> bs\<close>, \<open>solve\<close> returns, without an
  exception: either \<open>None\<close>, or a board of the same size in which every cell has a
  non-zero value and no two different cells of a row, a column or a box hold the same
  value.  It never returns a board with an empty cell.
\<close>

theorem solve_sound:
  assumes "0 \<le> bs" "reachable bs (h ! self)" "self < length h"
  shows "\<exists>res h'. solve h self = Some (Inr (res, h')) \<and>
           (case res of
              None \<Rightarrow> True
            | Some a \<Rightarrow>
                a < length h' \<and> box_size (h' ! a) = bs \<and> max_val (h' ! a) = bs * bs \<and>
                grid_ok (nat (bs * bs)) (cell (h' ! a)) \<and>
                all_filled (h' ! a) \<and> peers_distinct (h' ! a))"
proof -
  have inv: "board_inv bs (h ! self)" using reachable_inv[OF assms(1,2)] .
  from solve_main[OF assms(3), of bs] inv obtain r where
    r: "solve h self = Some r" "good bs r"
    "\<forall>res h'. r = Inr (res, h') \<longrightarrow> (\<forall>a. res = Some a \<longrightarrow> a < length h')" by auto
  from r(2) obtain res h' where e: "r = Inr (res, h')"
    by (cases r) (auto simp: good_def)
  have "case res of
              None \<Rightarrow> True
            | Some a \<Rightarrow>
                a < length h' \<and> box_size (h' ! a) = bs \<and> max_val (h' ! a) = bs * bs \<and>
                grid_ok (nat (bs * bs)) (cell (h' ! a)) \<and>
                all_filled (h' ! a) \<and> peers_distinct (h' ! a)"
    using r(2,3) e by (auto simp: good_def board_inv_def shape_def split: option.splits)
  with r(1) e show ?thesis by blast
qed

theorem solve_sound_witness:
  "(0::int) \<le> 2 \<and> reachable 2 ([row_board] ! 0) \<and> (0::nat) < length [row_board] \<and>
   solve [row_board] 0 = Some (Inr (Some 9, snd row_board_result)) \<and>
   map (map cell_value) (cell (snd row_board_result ! 9)) =
     [[1, 2, 3, 4], [4, 3, 2, 1], [3, 4, 1, 2], [2, 1, 4, 3]] \<and>
   all_filled (snd row_board_result ! 9) \<and> peers_distinct (snd row_board_result ! 9) \<and>
   max_val (snd row_board_result ! 9) = 4"
proof -
  have z: "(0::int) \<le> 2" and l: "(0::nat) < length [row_board]" by simp_all
  have r: "reachable 2 ([row_board] ! 0)" using row_board_reachable by simp
  have e0: "solve [row_board] 0 = Some (Inr (fst row_board_result, snd row_board_result))"
    using solve_row_board by simp
  have e: "solve [row_board] 0 = Some (Inr (Some 9, snd row_board_result))"
    using e0 unfolding solve_row_board_values(1) .
  from solve_sound[OF z r l] e
  have "all_filled (snd row_board_result ! 9) \<and> peers_distinct (snd row_board_result ! 9) \<and>
        max_val (snd row_board_result ! 9) = 2 * 2" by auto
  with z r l e solve_row_board_values(2) show ?thesis by simp
qed

text \<open>
  C6.  Two calls of \<open>solve\<close> on equal board states, in any two stores and on any two
  objects, give the same result: the same exception, or \<open>None\<close> both, or boards that are
  equal in every field.  So does a second call on the same object after the first.
  (\<open>solve\<close> ends on every board, so the two calls cannot differ by one of them running
  on.)
\<close>

theorem solve_deterministic:
  assumes "s < length h" "t < length g" "h ! s = g ! t"
  shows "same_result (solve h s) (solve g t) \<and>
         (\<forall>res h'. solve h s = Some (Inr (res, h')) \<longrightarrow> same_result (solve h s) (solve h' s))"
proof
  show "same_result (solve h s) (solve g t)" using solve_values[OF assms] .
next
  show "\<forall>res h'. solve h s = Some (Inr (res, h')) \<longrightarrow> same_result (solve h s) (solve h' s)"
  proof (intro allI impI)
    fix res h' assume e: "solve h s = Some (Inr (res, h'))"
    from solve_main[OF assms(1), of 0] e
    have "length h < length h'" "\<forall>a<length h. h' ! a = h ! a" by auto
    with assms(1) have "s < length h'" "h ! s = h' ! s" by simp_all
    from solve_values[OF assms(1) this] show "same_result (solve h s) (solve h' s)" .
  qed
qed

theorem solve_deterministic_witness:
  "(0::nat) < length [row_board] \<and> (1::nat) < length [Sudoku_init 2, row_board] \<and>
   [row_board] ! 0 = [Sudoku_init 2, row_board] ! 1 \<and>
   same_result (solve [row_board] 0) (solve [Sudoku_init 2, row_board] 1) \<and>
   same_result (solve [row_board] 0) (solve (snd row_board_result) 0)"
proof -
  have l: "(0::nat) < length [row_board]" "(1::nat) < length [Sudoku_init 2, row_board]"
    "[row_board] ! 0 = [Sudoku_init 2, row_board] ! 1" by simp_all
  have e: "solve [row_board] 0 = Some (Inr (fst row_board_result, snd row_board_result))"
    using solve_row_board by simp
  from solve_deterministic[OF l] e
  have "same_result (solve [row_board] 0) (solve [Sudoku_init 2, row_board] 1)"
    "same_result (solve [row_board] 0) (solve (snd row_board_result) 0)" by blast+
  with l show ?thesis by simp
qed

text \<open>
  C7.  Every candidate list of a reachable board is strictly ascending.  When the board
  popped is, after propagation, neither solved nor a dead end, the round takes the
  candidates of the cell \<open>find_lowest_possibles\<close> selects in that ascending order; for each
  it adds a copy of the board to the store, a new object, into which \<open>set_cell\<close> assigns the
  candidate (and returns \<open>True\<close>); it appends the copies to the work list in that order,
  above the branches that were pending.  Every round pops the last element of the work
  list, so the copy pushed last is explored next, before the older branches.
\<close>

theorem solve_branches_depth_first:
  "(0 \<le> bs \<and> reachable bs b \<and> in_grid b q \<longrightarrow> sorted_wrt (<) (possible (cell_at b q))) \<and>
   (0 \<le> bs \<and> reachable bs (h ! p) \<and> p < length h \<and> fill_in_all_knowns (h ! p) = Inr b' \<and>
    solved b' = Inr False \<and> reached_dead_end b' = Inr False \<longrightarrow>
      (\<exists>row col c kids.
           find_lowest_possibles b' = Inr (row, col) \<and> get_cell (cell b') row col = Inr c \<and>
           possible c \<noteq> [] \<and> sorted_wrt (<) (possible c) \<and>
           length kids = length (possible c) \<and>
           (\<forall>k<length kids. set_cell b' (possible c ! k) row col = Inr (True, kids ! k)) \<and>
           fork_puzzles (h[p := b']) ps p row col (possible c) =
             Inr (h[p := b'] @ kids, ps @ [length h..<length h + length kids]) \<and>
           solve_loop h (ps @ [p]) pz =
             solve_loop (h[p := b'] @ kids) (ps @ [length h..<length h + length kids]) (Some p))) \<and>
   (p < length h \<longrightarrow>
      solve_loop h (ps @ [p]) pz =
        (case branch (h ! p) of
           Inl e \<Rightarrow> Some (Inl e)
         | Inr (Found x) \<Rightarrow> solve_loop (h[p := x]) [] (Some p)
         | Inr (Dead x) \<Rightarrow> solve_loop (h[p := x]) ps (if ps = [] then None else Some p)
         | Inr (Fork x kids) \<Rightarrow>
             solve_loop (h[p := x] @ kids) (ps @ [length h..<length h + length kids]) (Some p)))"
proof (intro conjI impI)
  assume a: "0 \<le> bs \<and> reachable bs b \<and> in_grid b q"
  then have "shape bs b" using reachable_inv by (auto simp: board_inv_def)
  with a have "cell_ok (bs * bs) (cell_at b q)"
    by (simp add: shape_def all_cells_def in_grid_def cell_at_def)
  then show "sorted_wrt (<) (possible (cell_at b q))" by (rule cell_ok_sorted)
next
  assume a: "0 \<le> bs \<and> reachable bs (h ! p) \<and> p < length h \<and> fill_in_all_knowns (h ! p) = Inr b' \<and>
    solved b' = Inr False \<and> reached_dead_end b' = Inr False"
  then have "board_inv bs (h ! p)" using reachable_inv by blast
  from fork_step[OF this, of b' ps pz] a
  show "\<exists>row col c kids.
           find_lowest_possibles b' = Inr (row, col) \<and> get_cell (cell b') row col = Inr c \<and>
           possible c \<noteq> [] \<and> sorted_wrt (<) (possible c) \<and>
           length kids = length (possible c) \<and>
           (\<forall>k<length kids. set_cell b' (possible c ! k) row col = Inr (True, kids ! k)) \<and>
           fork_puzzles (h[p := b']) ps p row col (possible c) =
             Inr (h[p := b'] @ kids, ps @ [length h..<length h + length kids]) \<and>
           solve_loop h (ps @ [p]) pz =
             solve_loop (h[p := b'] @ kids) (ps @ [length h..<length h + length kids]) (Some p)"
    by blast
next
  assume "p < length h"
  then show "solve_loop h (ps @ [p]) pz =
        (case branch (h ! p) of
           Inl e \<Rightarrow> Some (Inl e)
         | Inr (Found x) \<Rightarrow> solve_loop (h[p := x]) [] (Some p)
         | Inr (Dead x) \<Rightarrow> solve_loop (h[p := x]) ps (if ps = [] then None else Some p)
         | Inr (Fork x kids) \<Rightarrow>
             solve_loop (h[p := x] @ kids) (ps @ [length h..<length h + length kids]) (Some p))"
    by (rule solve_loop_step)
qed

theorem solve_branches_depth_first_witness:
  "(0::int) \<le> 2 \<and> reachable 2 ([row_board] ! 0) \<and> in_grid row_board (1, 3) \<and>
   possible (cell_at row_board (1, 3)) = [1, 2, 4] \<and>
   sorted_wrt (<) (possible (cell_at row_board (1, 3))) \<and>
   fill_in_all_knowns ([row_board] ! 0) = Inr row_board_filled \<and>
   solved row_board_filled = Inr False \<and> reached_dead_end row_board_filled = Inr False \<and>
   find_lowest_possibles row_board_filled = Inr (1, 0) \<and>
   possible (cell_at row_board_filled (1, 0)) = [3, 4] \<and>
   set_cell row_board_filled 3 1 0 = Inr (True, row_board_kids ! 0) \<and>
   set_cell row_board_filled 4 1 0 = Inr (True, row_board_kids ! 1) \<and>
   fork_puzzles [row_board_filled] [] 0 1 0 [3, 4] = Inr ([row_board_filled] @ row_board_kids, [1, 2]) \<and>
   solve_loop [row_board] [0] None =
     solve_loop ([row_board_filled] @ row_board_kids) [1, 2] (Some 0) \<and>
   (\<exists>x ks. branch (([row_board_filled] @ row_board_kids) ! 2) = Inr (Fork x ks) \<and>
      solve_loop ([row_board_filled] @ row_board_kids) ([1] @ [2]) (Some 0) =
        solve_loop (([row_board_filled] @ row_board_kids)[2 := x] @ ks)
          ([1] @ [length ([row_board_filled] @ row_board_kids)..<
                  length ([row_board_filled] @ row_board_kids) + length ks]) (Some 2))"
proof -
  note T1 = solve_branches_depth_first[THEN conjunct1, rule_format]
  note T2 = solve_branches_depth_first[THEN conjunct2, THEN conjunct1, rule_format]
  note T3 = solve_branches_depth_first[THEN conjunct2, THEN conjunct2, rule_format]
  have z: "(0::int) \<le> 2" by simp
  have r: "reachable 2 ([row_board] ! 0)" using row_board_reachable by simp
  have i: "in_grid row_board (1, 3)" by code_simp
  have c13: "possible (cell_at row_board (1, 3)) = [1, 2, 4]" by code_simp
  have s13: "sorted_wrt (<) (possible (cell_at row_board (1, 3)))"
    using T1[of 2 row_board "(1, 3)"] z row_board_reachable i by blast
  have "\<not> isl (fill_in_all_knowns row_board)" by code_simp
  then have f: "fill_in_all_knowns ([row_board] ! 0) = Inr row_board_filled"
    unfolding row_board_filled_def by simp
  have so: "solved row_board_filled = Inr False" by code_simp
  have de: "reached_dead_end row_board_filled = Inr False" by code_simp
  have lo: "find_lowest_possibles row_board_filled = Inr (1, 0)" by code_simp
  have g: "get_cell (cell row_board_filled) 1 0 = Inr (cell_at row_board_filled (1, 0))" by code_simp
  have c10: "possible (cell_at row_board_filled (1, 0)) = [3, 4]" by code_simp
  have k0: "set_cell row_board_filled 3 1 0 = Inr (True, row_board_kids ! 0)"
    unfolding row_board_kids_def by code_simp
  have k1: "set_cell row_board_filled 4 1 0 = Inr (True, row_board_kids ! 1)"
    unfolding row_board_kids_def by code_simp
  have p: "(0::nat) < length [row_board]" by simp
  from T2[of 2 "[row_board]" 0 row_board_filled "[]" None] z r p f so de
  obtain row col c kids where
    t: "find_lowest_possibles row_board_filled = Inr (row, col)"
       "get_cell (cell row_board_filled) row col = Inr c"
       "length kids = length (possible c)"
       "\<forall>k<length kids. set_cell row_board_filled (possible c ! k) row col = Inr (True, kids ! k)"
       "fork_puzzles ([row_board][0 := row_board_filled]) [] 0 row col (possible c) =
             Inr ([row_board][0 := row_board_filled] @ kids, [] @ [length [row_board]..<length [row_board] + length kids])"
       "solve_loop [row_board] ([] @ [0]) None =
             solve_loop ([row_board][0 := row_board_filled] @ kids) ([] @ [length [row_board]..<length [row_board] + length kids]) (Some 0)"
    by blast
  from t(1) lo have rc: "row = 1" "col = 0" by simp_all
  from t(2) g rc have c: "c = cell_at row_board_filled (1, 0)" by simp
  have len: "length kids = 2" using t(3) c c10 by simp
  have "set_cell row_board_filled (possible c ! 0) row col = Inr (True, kids ! 0)"
    "set_cell row_board_filled (possible c ! 1) row col = Inr (True, kids ! 1)"
    using t(4) len by simp_all
  then have "kids ! 0 = row_board_kids ! 0" "kids ! 1 = row_board_kids ! 1"
    using rc c c10 k0 k1 by simp_all
  then have kids: "kids = row_board_kids"
    using len by (intro nth_equalityI) (auto simp: row_board_kids_def less_Suc_eq numeral_2_eq_2)
  have up: "[Suc 0..<Suc (Suc (Suc 0))] = [1, 2]" by (simp add: upt_conv_Cons)
  have fp: "fork_puzzles [row_board_filled] [] 0 1 0 [3, 4] = Inr ([row_board_filled] @ row_board_kids, [1, 2])"
    using t(5) rc c c10 kids len by (simp add: row_board_kids_def up numeral_2_eq_2)
  have sl: "solve_loop [row_board] [0] None =
     solve_loop ([row_board_filled] @ row_board_kids) [1, 2] (Some 0)"
    using t(6) kids len by (simp add: row_board_kids_def up numeral_2_eq_2)
  have "case branch (([row_board_filled] @ row_board_kids) ! 2) of
          Inr (Fork x ks) \<Rightarrow> True | _ \<Rightarrow> False"
    by code_simp
  then obtain x ks where br: "branch (([row_board_filled] @ row_board_kids) ! 2) = Inr (Fork x ks)"
    by (auto split: sum.splits outcome.splits)
  have p2: "(2::nat) < length ([row_board_filled] @ row_board_kids)"
    by (simp add: row_board_kids_def)
  have "solve_loop ([row_board_filled] @ row_board_kids) ([1] @ [2]) (Some 0) =
        solve_loop (([row_board_filled] @ row_board_kids)[2 := x] @ ks)
          ([1] @ [length ([row_board_filled] @ row_board_kids)..<
                  length ([row_board_filled] @ row_board_kids) + length ks]) (Some 2)"
    using T3[OF p2, of "[1]" "Some 0"] br by simp
  with br have nx: "\<exists>x ks. branch (([row_board_filled] @ row_board_kids) ! 2) = Inr (Fork x ks) \<and>
      solve_loop ([row_board_filled] @ row_board_kids) ([1] @ [2]) (Some 0) =
        solve_loop (([row_board_filled] @ row_board_kids)[2 := x] @ ks)
          ([1] @ [length ([row_board_filled] @ row_board_kids)..<
                  length ([row_board_filled] @ row_board_kids) + length ks]) (Some 2)"
    by blast
  from z r i c13 s13 f so de lo c10 k0 k1 fp sl nx show ?thesis by (intro conjI)
qed

text \<open>
  C9.  \<open>solve\<close> ends on every store and receiver, and when it returns, every object that was
  in the store before the call, the receiver among them, is as it was: all the changes
  are to objects the call created.  On a reachable board it does return.
\<close>

theorem solve_keeps_receiver:
  assumes "self < length h"
  shows "\<exists>r. solve h self = Some r \<and>
           (\<forall>res h'. r = Inr (res, h') \<longrightarrow> take (length h) h' = h \<and> h' ! self = h ! self) \<and>
           (0 \<le> bs \<and> reachable bs (h ! self) \<longrightarrow> (\<exists>res h'. r = Inr (res, h')))"
proof -
  from solve_main[OF assms, of bs] obtain r where
    r: "solve h self = Some r"
    "\<forall>res h'. r = Inr (res, h') \<longrightarrow> length h < length h' \<and> (\<forall>a<length h. h' ! a = h ! a)"
    "board_inv bs (h ! self) \<longrightarrow> good bs r" by blast
  have "\<forall>res h'. r = Inr (res, h') \<longrightarrow> take (length h) h' = h \<and> h' ! self = h ! self"
  proof (intro allI impI)
    fix res h' assume "r = Inr (res, h')"
    with r(2) have l: "length h < length h'" and a: "\<forall>a<length h. h' ! a = h ! a" by auto
    have "take (length h) h' = h"
      using l a by (intro nth_equalityI) simp_all
    with a assms show "take (length h) h' = h \<and> h' ! self = h ! self" by simp
  qed
  moreover have "0 \<le> bs \<and> reachable bs (h ! self) \<longrightarrow> (\<exists>res h'. r = Inr (res, h'))"
  proof
    assume "0 \<le> bs \<and> reachable bs (h ! self)"
    then have "board_inv bs (h ! self)" using reachable_inv by blast
    with r(3) have "good bs r" by simp
    then show "\<exists>res h'. r = Inr (res, h')" by (cases r) (auto simp: good_def)
  qed
  ultimately show ?thesis using r(1) by blast
qed

theorem solve_keeps_receiver_witness:
  "(0::nat) < length [row_board] \<and> (0::int) \<le> 2 \<and> reachable 2 ([row_board] ! 0) \<and>
   solve [row_board] 0 = Some (Inr row_board_result) \<and>
   length (snd row_board_result) = 10 \<and>
   take (length [row_board]) (snd row_board_result) = [row_board] \<and>
   snd row_board_result ! 0 = [row_board] ! 0"
proof -
  have z: "(0::int) \<le> 2" and l: "(0::nat) < length [row_board]" by simp_all
  have r: "reachable 2 ([row_board] ! 0)" using row_board_reachable by simp
  have n: "length (snd row_board_result) = 10" by code_simp
  have e0: "solve [row_board] 0 = Some (Inr (fst row_board_result, snd row_board_result))"
    using solve_row_board by simp
  from solve_keeps_receiver[OF l, of 2] obtain r' where
    r': "solve [row_board] 0 = Some r'"
        "\<forall>res h'. r' = Inr (res, h') \<longrightarrow>
            take (length [row_board]) h' = [row_board] \<and> h' ! 0 = [row_board] ! 0"
    by blast
  from r'(1) e0 have "r' = Inr (fst row_board_result, snd row_board_result)" by simp
  with r'(2)
  have "take (length [row_board]) (snd row_board_result) = [row_board] \<and>
        snd row_board_result ! 0 = [row_board] ! 0"
    by blast
  with z l r n solve_row_board show ?thesis by simp
qed

section \<open>The display mapping\<close>

lemma str_digit:
  assumes "1 \<le> v" "v \<le> 9"
  shows "format_d v = [''123456789'' ! nat (v - 1)]"
proof -
  from assms have "v = 1 \<or> v = 2 \<or> v = 3 \<or> v = 4 \<or> v = 5 \<or> v = 6 \<or> v = 7 \<or> v = 8 \<or> v = 9"
    by arith
  then show ?thesis
    by (elim disjE; hypsubst_thin; code_simp)
qed

lemma str_upper:
  assumes "10 \<le> v" "v \<le> 35"
  shows "[char_of (v + 55 :: int)] = [''ABCDEFGHIJKLMNOPQRSTUVWXYZ'' ! nat (v - 10)]"
proof -
  from assms have "v \<in> set [10..35]" by (simp only: set_upto atLeastAtMost_iff)
  then have "v = 10 \<or> v = 11 \<or> v = 12 \<or> v = 13 \<or> v = 14 \<or> v = 15 \<or> v = 16 \<or> v = 17 \<or> v = 18 \<or> v = 19 \<or> v = 20 \<or> v = 21 \<or> v = 22 \<or> v = 23 \<or> v = 24 \<or> v = 25 \<or> v = 26 \<or> v = 27 \<or> v = 28 \<or> v = 29 \<or> v = 30 \<or> v = 31 \<or> v = 32 \<or> v = 33 \<or> v = 34 \<or> v = 35"
    by simp
  then show ?thesis
    by (elim disjE; hypsubst_thin; code_simp)
qed

lemma str_lower:
  assumes "36 \<le> v" "v \<le> 64"
  shows "[char_of (v + 61 :: int)] = [''abcdefghijklmnopqrstuvwxyz{|}'' ! nat (v - 36)]"
proof -
  from assms have "v \<in> set [36..64]" by (simp only: set_upto atLeastAtMost_iff)
  then have "v = 36 \<or> v = 37 \<or> v = 38 \<or> v = 39 \<or> v = 40 \<or> v = 41 \<or> v = 42 \<or> v = 43 \<or> v = 44 \<or> v = 45 \<or> v = 46 \<or> v = 47 \<or> v = 48 \<or> v = 49 \<or> v = 50 \<or> v = 51 \<or> v = 52 \<or> v = 53 \<or> v = 54 \<or> v = 55 \<or> v = 56 \<or> v = 57 \<or> v = 58 \<or> v = 59 \<or> v = 60 \<or> v = 61 \<or> v = 62 \<or> v = 63 \<or> v = 64"
    by simp
  then show ?thesis
    by (elim disjE; hypsubst_thin; code_simp)
qed

text \<open>
  C10.  \<open>Cell.__str__\<close> shows the value 0 as the blank marker \<open>_\<close>, a value from 1 to 9 as
  its decimal digit, a value from 10 to 35 as the capital letter \<open>A\<close> to \<open>Z\<close>, a value from
  36 to 64 as the small letter \<open>a\<close> to \<open>z\<close> (36 to 61) or one of the three signs \<open>{\<close>, \<open>|\<close>,
  \<open>}\<close> (62 to 64), and every value above 64 as the give-up marker \<open>*\<close>.  (A negative
  value, of which the claim says nothing, is printed in decimal.)
\<close>

theorem Cell_str_table:
  "Cell_str (c\<lparr>cell_value := v\<rparr>) =
     (if v = 0 then ''_''
      else if 1 \<le> v \<and> v \<le> 9 then [''123456789'' ! nat (v - 1)]
      else if 10 \<le> v \<and> v \<le> 35 then [''ABCDEFGHIJKLMNOPQRSTUVWXYZ'' ! nat (v - 10)]
      else if 36 \<le> v \<and> v \<le> 64 then [''abcdefghijklmnopqrstuvwxyz{|}'' ! nat (v - 36)]
      else if 64 < v then ''*''
      else format_d v)"
  using str_digit[of v] str_upper[of v] str_lower[of v]
  by (simp add: Cell_str_def)

end
